theory Spec2Isabelle
  imports Main "HOL-Library.Sublist"
begin

section \<open>RackNode.cpp: a readiness-driven audio node graph\<close>

text \<open>
  A shallow embedding of \<^verbatim>\<open>examples/AudioNodeDev/RackNode.cpp\<close>: the abstract
  \<^verbatim>\<open>AudioNode\<close>, its three variants (\<^verbatim>\<open>SinAudioNode\<close>, \<^verbatim>\<open>SummingAudioNode\<close>,
  \<^verbatim>\<open>FunctionAudioNode\<close>) and the \<^verbatim>\<open>AudioNodeProcessor\<close>.

  Samples are \<^verbatim>\<open>float\<close> in the source. Here the sample type is a type variable with a
  zero and an addition and no algebraic law at all, so every statement holds for whatever
  the addition of the sample type is, and sums are written in the order the code adds.
  \<^verbatim>\<open>jassert\<close> has no effect on what the program computes (a release build drops it, a
  debug build logs and carries on), so an assertion is a comment of the model; an access
  outside a buffer is undefined behaviour and is the result \<open>None\<close>.
\<close>

subsection \<open>The buffers (JUCE)\<close>

text \<open>
  Modelled from the spec: \<^verbatim>\<open>juce::AudioBuffer<float>\<close> and \<^verbatim>\<open>juce::MidiBuffer\<close> are library
  classes that are not part of the file. The spec gives their contract: a fixed channel
  and frame count, \<^verbatim>\<open>clear\<close>, \<^verbatim>\<open>addFrom\<close> (sample-wise accumulation), \<^verbatim>\<open>copyFrom\<close> (the
  same, overwriting), per-channel sample access; an event buffer with \<^verbatim>\<open>clear\<close>.
  A buffer holds its channels as lists of samples and its frame count, since a buffer
  with no channel still has one. The spec does not say what a buffer holds after
  \<^verbatim>\<open>setSize\<close>; the model fills it with zeros, and no statement below depends on that
  content (a node clears its buffer before it produces).
\<close>

record 'a AudioBuffer =
  channels :: "'a list list"
  numSamples :: nat

type_synonym MidiEvent = "nat \<times> nat list"
type_synonym MidiBuffer = "MidiEvent list"

definition getNumChannels :: "'a AudioBuffer \<Rightarrow> nat" where
  "getNumChannels b = length (channels b)"

definition getNumSamples :: "'a AudioBuffer \<Rightarrow> nat" where
  "getNumSamples b = numSamples b"

text \<open>A default-constructed buffer: no channel, no sample.\<close>

definition emptyBuffer :: "'a AudioBuffer" where
  "emptyBuffer = \<lparr>channels = [], numSamples = 0\<rparr>"

text \<open>Every channel holds exactly the buffer's frame count.\<close>

definition wellShaped :: "'a AudioBuffer \<Rightarrow> bool" where
  "wellShaped b = list_all (\<lambda>c. length c = numSamples b) (channels b)"

definition setSize :: "nat \<Rightarrow> nat \<Rightarrow> ('a::zero) AudioBuffer" where
  "setSize newNumChannels newNumSamples =
     \<lparr>channels = replicate newNumChannels (replicate newNumSamples 0),
      numSamples = newNumSamples\<rparr>"

definition clear :: "('a::zero) AudioBuffer \<Rightarrow> 'a AudioBuffer" where
  "clear b = b\<lparr>channels := map (map (\<lambda>_. 0)) (channels b)\<rparr>"

definition inRange :: "'a AudioBuffer \<Rightarrow> nat \<Rightarrow> nat \<Rightarrow> nat \<Rightarrow> bool" where
  "inRange b channel startSample num =
     (channel < getNumChannels b \<and> startSample + num \<le> getNumSamples b)"

definition addFrom ::
  "('a::plus) AudioBuffer \<Rightarrow> nat \<Rightarrow> nat \<Rightarrow> 'a AudioBuffer \<Rightarrow> nat \<Rightarrow> nat \<Rightarrow> nat
     \<Rightarrow> 'a AudioBuffer option" where
  "addFrom dest destChannel destStartSample source sourceChannel sourceStartSample num =
     (if inRange dest destChannel destStartSample num
         \<and> inRange source sourceChannel sourceStartSample num
      then
        let d = channels dest ! destChannel;
            s = channels source ! sourceChannel
        in Some (dest\<lparr>channels := (channels dest)[destChannel :=
             take destStartSample d
             @ map2 (+) (take num (drop destStartSample d)) (take num (drop sourceStartSample s))
             @ drop (destStartSample + num) d]\<rparr>)
      else None)"

definition copyFrom ::
  "'a AudioBuffer \<Rightarrow> nat \<Rightarrow> nat \<Rightarrow> 'a AudioBuffer \<Rightarrow> nat \<Rightarrow> nat \<Rightarrow> nat
     \<Rightarrow> 'a AudioBuffer option" where
  "copyFrom dest destChannel destStartSample source sourceChannel sourceStartSample num =
     (if inRange dest destChannel destStartSample num
         \<and> inRange source sourceChannel sourceStartSample num
      then
        let d = channels dest ! destChannel;
            s = channels source ! sourceChannel
        in Some (dest\<lparr>channels := (channels dest)[destChannel :=
             take destStartSample d
             @ take num (drop sourceStartSample s)
             @ drop (destStartSample + num) d]\<rparr>)
      else None)"

subsection \<open>Nodes\<close>

text \<open>
  A node is owned by its parent through a \<^verbatim>\<open>std::unique_ptr\<close>, so a graph is a finite
  tree of node objects. The first field of every variant is the node's identity (its
  address): the processor compares \<^verbatim>\<open>AudioNode*\<close> pointers, and the mutable part of a node
  lives in a store indexed by that identity. Distinct objects have distinct addresses;
  a tree in which an identity occurs twice stands for a node reached along two paths.

  \<^item> \<open>SinAudioNode a osc\<close>: \<open>osc k\<close> is what the (external) JUCE oscillator returns at its
    \<open>k\<close>-th \<^verbatim>\<open>processSample\<close> call after \<^verbatim>\<open>prepare\<close>.
  \<^item> \<open>SummingAudioNode a nodes\<close>, \<open>FunctionAudioNode a node function\<close>: as in the source.
  \<^item> \<open>NeverReadyAudioNode a n\<close>: \<^verbatim>\<open>AudioNode\<close> is an abstract class that client code
    derives from; this is the derived leaf with \<open>n\<close> channels whose
    \<^verbatim>\<open>isReadyToProcess()\<close> is \<^verbatim>\<open>return false;\<close> and whose other overrides do nothing.
    It is not one of the file's variants.
\<close>

datatype 'a AudioNode =
  SinAudioNode nat "nat \<Rightarrow> 'a"
| SummingAudioNode nat "'a AudioNode list"
| FunctionAudioNode nat "'a AudioNode" "'a \<Rightarrow> 'a"
| NeverReadyAudioNode nat nat

fun address :: "'a AudioNode \<Rightarrow> nat" where
  "address (SinAudioNode a osc) = a"
| "address (SummingAudioNode a nodes) = a"
| "address (FunctionAudioNode a node function) = a"
| "address (NeverReadyAudioNode a n) = a"

text \<open>The graphs built from the file's three variants only.\<close>

fun builtIn :: "'a AudioNode \<Rightarrow> bool" where
  "builtIn (SinAudioNode a osc) = True"
| "builtIn (SummingAudioNode a nodes) = list_all builtIn nodes"
| "builtIn (FunctionAudioNode a node function) = builtIn node"
| "builtIn (NeverReadyAudioNode a n) = False"

text \<open>Every node object of the tree, the node itself first, then its subtrees in order.\<close>

fun nodesOf :: "'a AudioNode \<Rightarrow> 'a AudioNode list" where
  "nodesOf (SinAudioNode a osc) = [SinAudioNode a osc]"
| "nodesOf (SummingAudioNode a nodes) =
     SummingAudioNode a nodes # concat (map nodesOf nodes)"
| "nodesOf (FunctionAudioNode a node function) =
     FunctionAudioNode a node function # nodesOf node"
| "nodesOf (NeverReadyAudioNode a n) = [NeverReadyAudioNode a n]"

record AudioNodeProperties =
  hasAudio :: bool
  hasMidi :: bool
  numberOfChannels :: nat

fun getAudioNodeProperties :: "'a AudioNode \<Rightarrow> AudioNodeProperties" where
  "getAudioNodeProperties (SinAudioNode a osc) =
     \<lparr>hasAudio = True, hasMidi = False, numberOfChannels = 1\<rparr>"
| "getAudioNodeProperties (SummingAudioNode a nodes) =
     foldl (\<lambda>props node.
              let nodeProps = getAudioNodeProperties node
              in \<lparr>hasAudio = hasAudio props \<or> hasAudio nodeProps,
                  hasMidi = hasMidi props \<or> hasMidi nodeProps,
                  numberOfChannels = max (numberOfChannels props) (numberOfChannels nodeProps)\<rparr>)
           \<lparr>hasAudio = False, hasMidi = False, numberOfChannels = 0\<rparr> nodes"
| "getAudioNodeProperties (FunctionAudioNode a node function) = getAudioNodeProperties node"
| "getAudioNodeProperties (NeverReadyAudioNode a n) =
     \<lparr>hasAudio = True, hasMidi = False, numberOfChannels = n\<rparr>"

fun getAllInputNodes :: "'a AudioNode \<Rightarrow> 'a AudioNode list" where
  "getAllInputNodes (SinAudioNode a osc) = []"
| "getAllInputNodes (SummingAudioNode a nodes) =
     concat (map (\<lambda>node. node # getAllInputNodes node) nodes)"
| "getAllInputNodes (FunctionAudioNode a node function) = node # getAllInputNodes node"
| "getAllInputNodes (NeverReadyAudioNode a n) = []"

subsection \<open>The mutable part of a node\<close>

text \<open>
  The private members of \<^verbatim>\<open>AudioNode\<close> (\<^verbatim>\<open>hasBeenProcessed\<close>, \<^verbatim>\<open>audioBuffer\<close>,
  \<^verbatim>\<open>midiBuffer\<close>) and, for a sine node, how many samples its oscillator has given since
  it was prepared. The memory maps an address to the object there and records, in the
  order they happen, the calls of \<^verbatim>\<open>initialise\<close>, \<^verbatim>\<open>prepareToPlay\<close> and \<^verbatim>\<open>process()\<close>.
\<close>

record 'a AudioNodeState =
  hasBeenProcessed :: bool
  audioBuffer :: "'a AudioBuffer"
  midiBuffer :: MidiBuffer
  oscillatorPosition :: nat

datatype call = Initialise nat | PrepareToPlay nat | Process nat

record 'a memory =
  objects :: "nat \<Rightarrow> 'a AudioNodeState"
  calls :: "call list"

definition newAudioNode :: "'a AudioNodeState" where
  "newAudioNode = \<lparr>hasBeenProcessed = False, audioBuffer = emptyBuffer, midiBuffer = [],
     oscillatorPosition = 0\<rparr>"

definition newMemory :: "'a memory" where
  "newMemory = \<lparr>objects = (\<lambda>a. newAudioNode), calls = []\<rparr>"

definition called :: "call \<Rightarrow> 'a memory \<Rightarrow> 'a memory" where
  "called c m = m\<lparr>calls := calls m @ [c]\<rparr>"

definition AudioNode_initialise :: "('a::zero) AudioNode \<Rightarrow> nat \<Rightarrow> 'a memory \<Rightarrow> 'a memory" where
  "AudioNode_initialise n blockSize m =
     (let props = getAudioNodeProperties n;
          this = objects m (address n)
      in called (Initialise (address n))
           (m\<lparr>objects := (objects m)(address n :=
                 this\<lparr>audioBuffer := setSize (numberOfChannels props) blockSize\<rparr>)\<rparr>))"

definition prepareForNextBlock :: "'a AudioNode \<Rightarrow> 'a memory \<Rightarrow> 'a memory" where
  "prepareForNextBlock n m =
     m\<lparr>objects := (objects m)(address n :=
          (objects m (address n))\<lparr>hasBeenProcessed := False\<rparr>)\<rparr>"

definition hasProcessed :: "'a AudioNode \<Rightarrow> 'a memory \<Rightarrow> bool" where
  "hasProcessed n m = hasBeenProcessed (objects m (address n))"

text \<open>The assertion \<^verbatim>\<open>jassert (hasProcessed())\<close> of both accessors is not a branch.\<close>

definition getProcessedAudioOutput :: "'a AudioNode \<Rightarrow> 'a memory \<Rightarrow> 'a AudioBuffer" where
  "getProcessedAudioOutput n m = audioBuffer (objects m (address n))"

definition getProcessedMidiOutput :: "'a AudioNode \<Rightarrow> 'a memory \<Rightarrow> MidiBuffer" where
  "getProcessedMidiOutput n m = midiBuffer (objects m (address n))"

subsection \<open>The overrides\<close>

text \<open>
  \<^verbatim>\<open>prepareToPlay (sampleRate, blockSize)\<close>: the sample rate only reaches the external
  oscillator, so it is left out. A sine node restarts its oscillator; the two composites
  forward the call to the nodes they own.
\<close>

fun prepareToPlay :: "'a AudioNode \<Rightarrow> nat \<Rightarrow> 'a memory \<Rightarrow> 'a memory" where
  "prepareToPlay (SinAudioNode a osc) blockSize m =
     (let m1 = called (PrepareToPlay a) m
      in m1\<lparr>objects := (objects m1)(a := (objects m1 a)\<lparr>oscillatorPosition := 0\<rparr>)\<rparr>)"
| "prepareToPlay (SummingAudioNode a nodes) blockSize m =
     fold (\<lambda>n. prepareToPlay n blockSize) nodes (called (PrepareToPlay a) m)"
| "prepareToPlay (FunctionAudioNode a input function) blockSize m =
     prepareToPlay input blockSize (called (PrepareToPlay a) m)"
| "prepareToPlay (NeverReadyAudioNode a n) blockSize m = called (PrepareToPlay a) m"

fun isReadyToProcess :: "'a AudioNode \<Rightarrow> 'a memory \<Rightarrow> bool" where
  "isReadyToProcess (SinAudioNode a osc) m = True"
| "isReadyToProcess (SummingAudioNode a nodes) m = list_all (\<lambda>n. hasProcessed n m) nodes"
| "isReadyToProcess (FunctionAudioNode a input function) m = hasProcessed input m"
| "isReadyToProcess (NeverReadyAudioNode a n) m = False"

text \<open>
  Access through \<^verbatim>\<open>getReadPointer (channel)\<close> and \<^verbatim>\<open>getWritePointer (channel)\<close>: the first
  \<open>n\<close> samples of a channel. Nothing is accessed when \<open>n = 0\<close>.
\<close>

definition readSamples :: "'a AudioBuffer \<Rightarrow> nat \<Rightarrow> nat \<Rightarrow> 'a list option" where
  "readSamples b channel n =
     (if n = 0 then Some []
      else if inRange b channel 0 n then Some (take n (channels b ! channel))
      else None)"

definition writeSamples :: "'a AudioBuffer \<Rightarrow> nat \<Rightarrow> 'a list \<Rightarrow> 'a AudioBuffer option" where
  "writeSamples b channel xs =
     (if xs = [] then Some b
      else if inRange b channel 0 (length xs)
      then Some (b\<lparr>channels := (channels b)[channel :=
             xs @ drop (length xs) (channels b ! channel)]\<rparr>)
      else None)"

definition SinAudioNode_process ::
  "nat \<Rightarrow> (nat \<Rightarrow> 'a) \<Rightarrow> 'a memory \<Rightarrow> 'a AudioBuffer \<Rightarrow> MidiBuffer
     \<Rightarrow> ('a AudioBuffer \<times> MidiBuffer \<times> 'a memory) option" where
  "SinAudioNode_process a osc m buffer midi =
     (let position = oscillatorPosition (objects m a);
          n = getNumSamples buffer
      in case writeSamples buffer 0 (map osc [position ..< position + n]) of
           None \<Rightarrow> None
         | Some b \<Rightarrow> Some (b, midi,
             m\<lparr>objects := (objects m)(a :=
                 (objects m a)\<lparr>oscillatorPosition := position + n\<rparr>)\<rparr>))"

text \<open>The inner loop of the summing node: \<^verbatim>\<open>dest.addFrom (i, 0, inputBuffer, i, 0, numSamples)\<close>.\<close>

fun addChannels ::
  "('a::plus) AudioBuffer \<Rightarrow> 'a AudioBuffer \<Rightarrow> nat \<Rightarrow> nat list \<Rightarrow> 'a AudioBuffer option" where
  "addChannels dest inputBuffer n [] = Some dest"
| "addChannels dest inputBuffer n (i # is) =
     (case addFrom dest i 0 inputBuffer i 0 n of
        None \<Rightarrow> None
      | Some dest' \<Rightarrow> addChannels dest' inputBuffer n is)"

fun sumInputs ::
  "('a::plus) AudioNode list \<Rightarrow> 'a memory \<Rightarrow> nat \<Rightarrow> 'a AudioBuffer \<Rightarrow> 'a AudioBuffer option" where
  "sumInputs [] m n dest = Some dest"
| "sumInputs (input # nodes) m n dest =
     (let inputBuffer = getProcessedAudioOutput input m;
          numChannels = min (getNumChannels dest) (getNumChannels inputBuffer)
      in case addChannels dest inputBuffer n [0 ..< numChannels] of
           None \<Rightarrow> None
         | Some dest' \<Rightarrow> sumInputs nodes m n dest')"

definition SummingAudioNode_process ::
  "('a::plus) AudioNode list \<Rightarrow> 'a memory \<Rightarrow> 'a AudioBuffer \<Rightarrow> MidiBuffer
     \<Rightarrow> ('a AudioBuffer \<times> MidiBuffer \<times> 'a memory) option" where
  "SummingAudioNode_process nodes m dest midi =
     (case sumInputs nodes m (getNumSamples dest) dest of
        None \<Rightarrow> None
      | Some dest' \<Rightarrow> Some (dest', midi, m))"

text \<open>The outer loop of the function node, over the channels \<open>c\<close>.\<close>

fun applyFunction ::
  "('a \<Rightarrow> 'a) \<Rightarrow> 'a AudioBuffer \<Rightarrow> nat \<Rightarrow> 'a AudioBuffer \<Rightarrow> nat list \<Rightarrow> 'a AudioBuffer option" where
  "applyFunction function inputBuffer n outputBuffer [] = Some outputBuffer"
| "applyFunction function inputBuffer n outputBuffer (c # cs) =
     (case readSamples inputBuffer c n of
        None \<Rightarrow> None
      | Some inputSamples \<Rightarrow>
          (case writeSamples outputBuffer c (map function inputSamples) of
             None \<Rightarrow> None
           | Some outputBuffer' \<Rightarrow> applyFunction function inputBuffer n outputBuffer' cs))"

definition FunctionAudioNode_process ::
  "'a AudioNode \<Rightarrow> ('a \<Rightarrow> 'a) \<Rightarrow> 'a memory \<Rightarrow> 'a AudioBuffer \<Rightarrow> MidiBuffer
     \<Rightarrow> ('a AudioBuffer \<times> MidiBuffer \<times> 'a memory) option" where
  "FunctionAudioNode_process input function m outputBuffer midi =
     (let inputBuffer = getProcessedAudioOutput input m;
          n = getNumSamples outputBuffer;
          numChannels = min (getNumChannels inputBuffer) (getNumChannels outputBuffer)
      in case applyFunction function inputBuffer n outputBuffer [0 ..< numChannels] of
           None \<Rightarrow> None
         | Some outputBuffer' \<Rightarrow> Some (outputBuffer', midi, m))"

text \<open>The virtual \<^verbatim>\<open>process (destAudio, destMidi)\<close>, dispatched on the variant.\<close>

fun process ::
  "('a::plus) AudioNode \<Rightarrow> 'a memory \<Rightarrow> 'a AudioBuffer \<Rightarrow> MidiBuffer
     \<Rightarrow> ('a AudioBuffer \<times> MidiBuffer \<times> 'a memory) option" where
  "process (SinAudioNode a osc) m destAudio destMidi =
     SinAudioNode_process a osc m destAudio destMidi"
| "process (SummingAudioNode a nodes) m destAudio destMidi =
     SummingAudioNode_process nodes m destAudio destMidi"
| "process (FunctionAudioNode a input function) m destAudio destMidi =
     FunctionAudioNode_process input function m destAudio destMidi"
| "process (NeverReadyAudioNode a n) m destAudio destMidi = Some (destAudio, destMidi, m)"

text \<open>
  The non-virtual \<^verbatim>\<open>AudioNode::process()\<close>: clear both buffers, let the override fill
  them, set the flag. Its two closing assertions on the buffer's shape are not branches.
\<close>

definition AudioNode_process :: "('a::{zero,plus}) AudioNode \<Rightarrow> 'a memory \<Rightarrow> 'a memory option" where
  "AudioNode_process n m =
     (let a = address n;
          this = (objects m a)\<lparr>audioBuffer := clear (audioBuffer (objects m a)),
                                midiBuffer := []\<rparr>;
          m1 = called (Process a) (m\<lparr>objects := (objects m)(a := this)\<rparr>)
      in case process n m1 (audioBuffer this) (midiBuffer this) of
           None \<Rightarrow> None
         | Some (audio, midi, m2) \<Rightarrow>
             Some (m2\<lparr>objects := (objects m2)(a :=
                    (objects m2 a)\<lparr>audioBuffer := audio, midiBuffer := midi,
                                   hasBeenProcessed := True\<rparr>)\<rparr>))"

subsection \<open>The processor's constructor\<close>

text \<open>
  \<^verbatim>\<open>std::unique_copy (first, last, out, pred)\<close>: copies the first element of every run of
  consecutive elements that \<open>pred\<close> holds equal to the element copied last.
\<close>

fun unique_copy :: "('b \<Rightarrow> 'b \<Rightarrow> bool) \<Rightarrow> 'b list \<Rightarrow> 'b list" where
  "unique_copy pred [] = []"
| "unique_copy pred [x] = [x]"
| "unique_copy pred (x # y # ys) =
     (if pred x y then unique_copy pred (x # ys) else x # unique_copy pred (y # ys))"

record 'a AudioNodeProcessor =
  node :: "'a AudioNode"
  allNodes :: "'a AudioNode list"

definition newAudioNodeProcessor :: "'a AudioNode \<Rightarrow> 'a AudioNodeProcessor" where
  "newAudioNodeProcessor nodeToProcess =
     (let nodes = getAllInputNodes nodeToProcess @ [nodeToProcess]
      in \<lparr>node = nodeToProcess,
          allNodes = unique_copy (\<lambda>n1 n2. address n1 = address n2) nodes\<rparr>)"

subsection \<open>The processor's two operations\<close>

definition AudioNodeProcessor_prepareToPlay ::
  "('a::zero) AudioNodeProcessor \<Rightarrow> nat \<Rightarrow> 'a memory \<Rightarrow> 'a memory" where
  "AudioNodeProcessor_prepareToPlay p blockSize m =
     fold (\<lambda>n m'. prepareToPlay n blockSize (AudioNode_initialise n blockSize m'))
       (allNodes p) m"

fun copyChannels ::
  "'a AudioBuffer \<Rightarrow> 'a AudioBuffer \<Rightarrow> nat \<Rightarrow> nat list \<Rightarrow> 'a AudioBuffer option" where
  "copyChannels dest source n [] = Some dest"
| "copyChannels dest source n (i # is) =
     (case copyFrom dest i 0 source i 0 n of
        None \<Rightarrow> None
      | Some dest' \<Rightarrow> copyChannels dest' source n is)"

definition copyAudioBuffer :: "'a AudioBuffer \<Rightarrow> 'a AudioBuffer \<Rightarrow> 'a AudioBuffer option" where
  "copyAudioBuffer dest source =
     (let n = getNumSamples dest;
          numChannels = min (getNumChannels dest) (getNumChannels source)
      in copyChannels dest source n [0 ..< numChannels])"

text \<open>
  One scan of \<^verbatim>\<open>allNodes\<close> inside \<^verbatim>\<open>for (;;)\<close>; the flag is \<^verbatim>\<open>processedAnyNodes\<close>.
\<close>

fun processPass ::
  "('a::{zero,plus}) AudioNode list \<Rightarrow> 'a memory \<Rightarrow> bool \<Rightarrow> ('a memory \<times> bool) option" where
  "processPass [] m processedAnyNodes = Some (m, processedAnyNodes)"
| "processPass (n # ns) m processedAnyNodes =
     (if \<not> hasProcessed n m \<and> isReadyToProcess n m
      then (case AudioNode_process n m of
              None \<Rightarrow> None
            | Some m' \<Rightarrow> processPass ns m' True)
      else processPass ns m processedAnyNodes)"

text \<open>What is left to do: the entries of the list whose flag is not set.\<close>

definition unprocessed :: "'a AudioNode list \<Rightarrow> 'a memory \<Rightarrow> nat" where
  "unprocessed ns m = length (filter (\<lambda>n. \<not> hasProcessed n m) ns)"

subsection \<open>Shapes and graphs\<close>

text \<open>The channel count and the frame count of a buffer.\<close>

definition shape :: "'a AudioBuffer \<Rightarrow> nat \<times> nat" where
  "shape b = (getNumChannels b, getNumSamples b)"

text \<open>
  A tree is consistent when an identity names one node object: equal addresses carry
  equal subtrees. These are the finite acyclic graphs, a node that several parents hold
  being written once under each of them. A tree whose identities are all different (what
  \<^verbatim>\<open>std::unique_ptr\<close> ownership builds) is consistent.

  A node is initialised for a block size when its buffer has the shape that
  \<^verbatim>\<open>AudioNode::initialise\<close> gives it.
\<close>

definition consistent :: "'a AudioNode \<Rightarrow> bool" where
  "consistent g = inj_on address (set (nodesOf g))"

definition initialised :: "nat \<Rightarrow> 'a memory \<Rightarrow> 'a AudioNode \<Rightarrow> bool" where
  "initialised blockSize m n =
     (shape (audioBuffer (objects m (address n)))
        = (numberOfChannels (getAudioNodeProperties n), blockSize))"

subsection \<open>The block loop\<close>

text \<open>
  A scan that processes a node sets a flag that was not set, and no scan clears one, so
  \<^verbatim>\<open>for (;;)\<close> ends: the loop is a total function.
\<close>

lemma process_frame:
  assumes "process n m a midi = Some (a', midi', m')"
  shows "calls m' = calls m" and "midi' = midi"
    and "hasBeenProcessed (objects m' x) = hasBeenProcessed (objects m x)"
    and "audioBuffer (objects m' x) = audioBuffer (objects m x)"
    and "midiBuffer (objects m' x) = midiBuffer (objects m x)"
  using assms
  by (cases n;
      auto simp add: SinAudioNode_process_def SummingAudioNode_process_def
        FunctionAudioNode_process_def Let_def split: option.splits if_splits)+

lemma AudioNode_process_flags:
  assumes "AudioNode_process n m = Some m'"
  shows "hasBeenProcessed (objects m' x) = (x = address n \<or> hasBeenProcessed (objects m x))"
proof -
  let ?a = "address n"
  let ?self = "(objects m ?a)\<lparr>audioBuffer := clear (audioBuffer (objects m ?a)), midiBuffer := []\<rparr>"
  let ?m1 = "called (Process ?a) (m\<lparr>objects := (objects m)(?a := ?self)\<rparr>)"
  from assms obtain audio midi m2 where
    p: "process n ?m1 (audioBuffer ?self) (midiBuffer ?self) = Some (audio, midi, m2)"
    and m': "m' = m2\<lparr>objects := (objects m2)(?a :=
                    (objects m2 ?a)\<lparr>audioBuffer := audio, midiBuffer := midi,
                                   hasBeenProcessed := True\<rparr>)\<rparr>"
    by (auto simp: AudioNode_process_def Let_def split: option.splits prod.splits)
  from process_frame(3) [OF p, of x] m' show ?thesis
    by (simp add: called_def)
qed

lemma AudioNode_process_calls:
  assumes "AudioNode_process n m = Some m'"
  shows "calls m' = calls m @ [Process (address n)]"
proof -
  let ?a = "address n"
  let ?self = "(objects m ?a)\<lparr>audioBuffer := clear (audioBuffer (objects m ?a)), midiBuffer := []\<rparr>"
  let ?m1 = "called (Process ?a) (m\<lparr>objects := (objects m)(?a := ?self)\<rparr>)"
  from assms obtain audio midi m2 where
    p: "process n ?m1 (audioBuffer ?self) (midiBuffer ?self) = Some (audio, midi, m2)"
    and m': "m' = m2\<lparr>objects := (objects m2)(?a :=
                    (objects m2 ?a)\<lparr>audioBuffer := audio, midiBuffer := midi,
                                   hasBeenProcessed := True\<rparr>)\<rparr>"
    by (auto simp: AudioNode_process_def Let_def split: option.splits prod.splits)
  from process_frame(1) [OF p] m' show ?thesis
    by (simp add: called_def)
qed

lemma processPass_flags:
  "processPass ns m b = Some (m', b') \<Longrightarrow>
     (\<forall>x. hasBeenProcessed (objects m x) \<longrightarrow> hasBeenProcessed (objects m' x))
     \<and> (b \<longrightarrow> b')
     \<and> (\<not> b \<and> b' \<longrightarrow> (\<exists>n \<in> set ns. \<not> hasProcessed n m \<and> hasProcessed n m'))"
proof (induction ns arbitrary: m b)
  case Nil
  then show ?case by simp
next
  case (Cons n ns)
  show ?case
  proof (cases "\<not> hasProcessed n m \<and> isReadyToProcess n m")
    case True
    with Cons.prems obtain m1 where
      m1: "AudioNode_process n m = Some m1" and rest: "processPass ns m1 True = Some (m', b')"
      by (auto split: option.splits)
    from Cons.IH [OF rest] AudioNode_process_flags [OF m1] True
    show ?thesis by (auto simp: hasProcessed_def)
  next
    case False
    with Cons.prems have rest: "processPass ns m b = Some (m', b')" by auto
    from Cons.IH [OF rest] show ?thesis by auto
  qed
qed

lemma filter_length_less:
  "\<forall>x \<in> set xs. Q x \<longrightarrow> P x \<Longrightarrow> \<exists>x \<in> set xs. P x \<and> \<not> Q x \<Longrightarrow>
     length (filter Q xs) < length (filter P xs)"
proof (induction xs)
  case Nil
  then show ?case by simp
next
  case (Cons x xs)
  have le: "length (filter Q xs) \<le> length (filter P xs)"
    using Cons.prems(1) by (induction xs) auto
  show ?case
  proof (cases "\<exists>y \<in> set xs. P y \<and> \<not> Q y")
    case True
    with Cons have "length (filter Q xs) < length (filter P xs)" by simp
    with Cons.prems(1) show ?thesis by auto
  next
    case False
    with Cons.prems(2) have "P x \<and> \<not> Q x" by auto
    with le show ?thesis by auto
  qed
qed

lemma processPass_unprocessed:
  assumes "processPass ns m False = Some (m', True)"
  shows "unprocessed ns m' < unprocessed ns m"
proof -
  from processPass_flags [OF assms]
  have mono: "\<forall>x. hasBeenProcessed (objects m x) \<longrightarrow> hasBeenProcessed (objects m' x)"
    and ex: "\<exists>n \<in> set ns. \<not> hasProcessed n m \<and> hasProcessed n m'"
    by auto
  show ?thesis
    unfolding unprocessed_def
    by (rule filter_length_less) (use mono ex in \<open>auto simp: hasProcessed_def\<close>)
qed

text \<open>
  \<^verbatim>\<open>for (;;)\<close>: scan until a scan processes nothing, then copy the root's buffer into
  the caller's. \<^verbatim>\<open>AudioNodeProcessor::process\<close> returns nothing; the result here is the
  caller's two buffers and the memory after the call.
\<close>

function processLoop ::
  "('a::{zero,plus}) AudioNodeProcessor \<Rightarrow> 'a memory \<Rightarrow> 'a AudioBuffer
     \<Rightarrow> ('a AudioBuffer \<times> 'a memory) option" where
  "processLoop p m audio =
     (case processPass (allNodes p) m False of
        None \<Rightarrow> None
      | Some (m', processedAnyNodes) \<Rightarrow>
          if \<not> processedAnyNodes
          then (case copyAudioBuffer audio (getProcessedAudioOutput (node p) m') of
                  None \<Rightarrow> None
                | Some audio' \<Rightarrow> Some (audio', m'))
          else processLoop p m' audio)"
  by pat_completeness auto
termination
  by (relation "measure (\<lambda>(p, m, audio). unprocessed (allNodes p) m)")
    (auto dest: processPass_unprocessed)

declare processLoop.simps [simp del]

definition AudioNodeProcessor_process ::
  "('a::{zero,plus}) AudioNodeProcessor \<Rightarrow> 'a memory \<Rightarrow> 'a AudioBuffer \<Rightarrow> MidiBuffer
     \<Rightarrow> ('a AudioBuffer \<times> MidiBuffer \<times> 'a memory) option" where
  "AudioNodeProcessor_process p m audio midi =
     (case processLoop p (fold prepareForNextBlock (allNodes p) m) audio of
        None \<Rightarrow> None
      | Some (audio', m') \<Rightarrow> Some (audio', midi, m'))"


section \<open>The flat scheduling list\<close>

lemma nodesOf_getAllInputNodes: "nodesOf g = g # getAllInputNodes g"
proof (induction g)
  case (SummingAudioNode a nodes)
  then have "map nodesOf nodes = map (\<lambda>n. n # getAllInputNodes n) nodes"
    by (intro map_cong) simp_all
  then show ?case by (simp del: map_eq_conv)
qed simp_all

lemma unique_copy_subseq: "subseq (unique_copy pred xs) xs"
  by (induction pred xs rule: unique_copy.induct) (auto intro: subseq_Cons2' list_emb_trans)

lemma unique_copy_distinct:
  "distinct (map f xs) \<Longrightarrow> unique_copy (\<lambda>x y. f x = f y) xs = xs"
  by (induction "\<lambda>x y. f x = f y" xs rule: unique_copy.induct) auto

lemma unique_copy_image:
  "f ` set (unique_copy (\<lambda>x y. f x = f y) xs) = f ` set xs"
  by (induction "\<lambda>x y. f x = f y" xs rule: unique_copy.induct) auto

lemma allNodes_addresses:
  "address ` set (allNodes (newAudioNodeProcessor g)) = address ` set (nodesOf g)"
  by (simp add: newAudioNodeProcessor_def unique_copy_image nodesOf_getAllInputNodes
      insert_commute)

lemma allNodes_subseq:
  "subseq (allNodes (newAudioNodeProcessor g)) (getAllInputNodes g @ [g])"
  by (simp add: newAudioNodeProcessor_def unique_copy_subseq)


definition diamond :: "int AudioNode" where
  "diamond = SummingAudioNode 0
     [FunctionAudioNode 1 (SinAudioNode 3 (\<lambda>k. 0)) (\<lambda>s. s),
      FunctionAudioNode 2 (SinAudioNode 3 (\<lambda>k. 0)) (\<lambda>s. s)]"


text \<open>
  When every identity occurs once in the tree there is nothing to drop: the list is
  every transitively reachable input in depth-first order, followed by the root.
\<close>

lemma allNodes_unshared:
  "distinct (map address (nodesOf g)) \<Longrightarrow>
     allNodes (newAudioNodeProcessor g) = getAllInputNodes g @ [g]
     \<and> distinct (map address (allNodes (newAudioNodeProcessor g)))
     \<and> address ` set (allNodes (newAudioNodeProcessor g)) = address ` set (nodesOf g)"
proof -
  assume d: "distinct (map address (nodesOf g))"
  then have d': "distinct (map address (getAllInputNodes g @ [g]))"
    by (auto simp: nodesOf_getAllInputNodes)
  have eq: "allNodes (newAudioNodeProcessor g) = getAllInputNodes g @ [g]"
    using unique_copy_distinct [OF d'] by (simp add: newAudioNodeProcessor_def)
  from eq d' allNodes_addresses [of g] show ?thesis by simp
qed

text \<open>The graph of the file's cancelling test.\<close>

definition cancelling :: "int AudioNode" where
  "cancelling = SummingAudioNode 0
     [SinAudioNode 1 (\<lambda>k. int k), FunctionAudioNode 2 (SinAudioNode 3 (\<lambda>k. int k)) (\<lambda>s. - s)]"

section \<open>Buffer shapes\<close>

lemma clear_shape: "shape (clear b) = shape b"
  by (simp add: shape_def clear_def getNumChannels_def getNumSamples_def)

lemma addFrom_shape: "addFrom d dc ds s sc ss n = Some d' \<Longrightarrow> shape d' = shape d"
  by (auto simp: addFrom_def shape_def getNumChannels_def getNumSamples_def Let_def
      split: if_splits)

lemma copyFrom_shape: "copyFrom d dc ds s sc ss n = Some d' \<Longrightarrow> shape d' = shape d"
  by (auto simp: copyFrom_def shape_def getNumChannels_def getNumSamples_def Let_def
      split: if_splits)

lemma writeSamples_shape: "writeSamples b c xs = Some b' \<Longrightarrow> shape b' = shape b"
  by (auto simp: writeSamples_def shape_def getNumChannels_def getNumSamples_def
      split: if_splits)

lemma addChannels_shape: "addChannels d s n cs = Some d' \<Longrightarrow> shape d' = shape d"
  by (induction cs arbitrary: d) (auto split: option.splits dest: addFrom_shape)

lemma copyChannels_shape: "copyChannels d s n cs = Some d' \<Longrightarrow> shape d' = shape d"
  by (induction cs arbitrary: d) (auto split: option.splits dest: copyFrom_shape)

lemma sumInputs_shape: "sumInputs ns m n d = Some d' \<Longrightarrow> shape d' = shape d"
  by (induction ns arbitrary: d) (auto simp: Let_def split: option.splits dest: addChannels_shape)

lemma applyFunction_shape: "applyFunction f s n b cs = Some b' \<Longrightarrow> shape b' = shape b"
  by (induction cs arbitrary: b) (auto split: option.splits dest: writeSamples_shape)

lemma copyAudioBuffer_shape: "copyAudioBuffer d s = Some d' \<Longrightarrow> shape d' = shape d"
  by (auto simp: copyAudioBuffer_def Let_def dest: copyChannels_shape)

lemma process_shape:
  "process n m a midi = Some (a', midi', m') \<Longrightarrow> shape a' = shape a"
  by (cases n)
    (auto simp: SinAudioNode_process_def SummingAudioNode_process_def
      FunctionAudioNode_process_def Let_def split: option.splits
      dest: writeSamples_shape sumInputs_shape applyFunction_shape)

lemma AudioNode_process_unfold:
  assumes "AudioNode_process n m = Some m'"
  obtains audio midi m2 where
    "process n (called (Process (address n)) (m\<lparr>objects := (objects m)(address n :=
        (objects m (address n))\<lparr>audioBuffer := clear (audioBuffer (objects m (address n))),
          midiBuffer := []\<rparr>)\<rparr>))
        (clear (audioBuffer (objects m (address n)))) [] = Some (audio, midi, m2)"
    and "m' = m2\<lparr>objects := (objects m2)(address n :=
                    (objects m2 (address n))\<lparr>audioBuffer := audio, midiBuffer := midi,
                                   hasBeenProcessed := True\<rparr>)\<rparr>"
  using assms
  by (auto simp: AudioNode_process_def Let_def split: option.splits prod.splits)

lemma AudioNode_process_shape:
  assumes "AudioNode_process n m = Some m'"
  shows "shape (audioBuffer (objects m' x)) = shape (audioBuffer (objects m x))"
proof -
  from assms obtain audio midi m2 where
    p: "process n (called (Process (address n)) (m\<lparr>objects := (objects m)(address n :=
        (objects m (address n))\<lparr>audioBuffer := clear (audioBuffer (objects m (address n))),
          midiBuffer := []\<rparr>)\<rparr>))
        (clear (audioBuffer (objects m (address n)))) [] = Some (audio, midi, m2)"
    and m': "m' = m2\<lparr>objects := (objects m2)(address n :=
                    (objects m2 (address n))\<lparr>audioBuffer := audio, midiBuffer := midi,
                                   hasBeenProcessed := True\<rparr>)\<rparr>"
    by (rule AudioNode_process_unfold)
  from process_shape [OF p] process_frame(4) [OF p, of x] m' show ?thesis
    by (auto simp: called_def clear_shape)
qed

lemma processPass_shape:
  "processPass ns m b = Some (m', b') \<Longrightarrow>
     shape (audioBuffer (objects m' x)) = shape (audioBuffer (objects m x))"
  by (induction ns arbitrary: m b)
    (auto split: if_splits option.splits dest: AudioNode_process_shape)

lemma processLoop_shape:
  "processLoop p m audio = Some (audio', m') \<Longrightarrow>
     shape audio' = shape audio
     \<and> shape (audioBuffer (objects m' x)) = shape (audioBuffer (objects m x))"
proof (induction p m audio rule: processLoop.induct)
  case (1 p m audio)
  from "1.prems" obtain m1 b where pass: "processPass (allNodes p) m False = Some (m1, b)"
    by (subst (asm) processLoop.simps) (auto split: option.splits)
  show ?case
  proof (cases b)
    case True
    with pass "1.prems" have "processLoop p m1 audio = Some (audio', m')"
      by (subst (asm) processLoop.simps) simp
    from "1.IH" [OF pass refl _ this] True processPass_shape [OF pass, of x]
    show ?thesis by simp
  next
    case False
    with pass "1.prems" have "copyAudioBuffer audio (getProcessedAudioOutput (node p) m1) = Some audio'"
      and "m' = m1"
      by (subst (asm) processLoop.simps; auto split: option.splits)+
    with processPass_shape [OF pass, of x] copyAudioBuffer_shape show ?thesis by auto
  qed
qed

lemma prepareForNextBlock_fold_buffers:
  "audioBuffer (objects (fold prepareForNextBlock ns m) x) = audioBuffer (objects m x)"
  by (induction ns arbitrary: m) (auto simp: prepareForNextBlock_def)

section \<open>Graphs and the processor's list\<close>

lemma nodesOf_self: "n \<in> set (nodesOf n)"
  by (cases n) simp_all

lemma nodesOf_closed: "n \<in> set (nodesOf g) \<Longrightarrow> set (nodesOf n) \<subseteq> set (nodesOf g)"
proof (induction g)
  case (SummingAudioNode a nodes)
  then show ?case by (fastforce simp: nodesOf_self)
next
  case (FunctionAudioNode a i f)
  then show ?case by (fastforce simp: nodesOf_self)
qed auto

lemma nodesOf_children:
  "SummingAudioNode a ns \<in> set (nodesOf g) \<Longrightarrow> set ns \<subseteq> set (nodesOf g)"
  using nodesOf_closed [of "SummingAudioNode a ns" g] nodesOf_self by fastforce

lemma nodesOf_input:
  "FunctionAudioNode a i f \<in> set (nodesOf g) \<Longrightarrow> i \<in> set (nodesOf g)"
  using nodesOf_closed [of "FunctionAudioNode a i f" g] nodesOf_self by fastforce

lemma unique_copy_subset: "set (unique_copy pred xs) \<subseteq> set xs"
  by (induction pred xs rule: unique_copy.induct) auto

lemma unique_copy_set:
  "\<forall>a \<in> set xs. \<forall>b \<in> set xs. pred a b \<longrightarrow> a = b \<Longrightarrow> set (unique_copy pred xs) = set xs"
proof (induction pred xs rule: unique_copy.induct)
  case (3 pred x y ys)
  show ?case
  proof (cases "pred x y")
    case True
    with "3.prems" have xy: "x = y" by simp
    have e1: "unique_copy pred (x # y # ys) = unique_copy pred (x # ys)"
      using True by simp
    have "\<forall>a \<in> set (x # ys). \<forall>b \<in> set (x # ys). pred a b \<longrightarrow> a = b"
      using "3.prems" by simp
    with "3.IH"(1) True have e2: "set (unique_copy pred (x # ys)) = set (x # ys)"
      by blast
    have e3: "set (x # y # ys) = set (x # ys)"
      unfolding xy by simp
    show ?thesis by (simp only: e1 e2 e3)
  next
    case False
    have e1: "unique_copy pred (x # y # ys) = x # unique_copy pred (y # ys)"
      using False by simp
    have "\<forall>a \<in> set (y # ys). \<forall>b \<in> set (y # ys). pred a b \<longrightarrow> a = b"
      using "3.prems" by simp
    with "3.IH"(2) False have e2: "set (unique_copy pred (y # ys)) = set (y # ys)"
      by blast
    show ?thesis unfolding e1 using e2 by simp
  qed
qed simp_all

lemma unique_copy_inj:
  "inj_on f (set xs) \<Longrightarrow> set (unique_copy (\<lambda>x y. f x = f y) xs) = set xs"
  by (rule unique_copy_set) (auto simp: inj_on_def)

lemma allNodes_consistent:
  "consistent g \<Longrightarrow> set (allNodes (newAudioNodeProcessor g)) = set (nodesOf g)"
proof -
  assume "consistent g"
  then have "inj_on address (set (getAllInputNodes g @ [g]))"
    by (simp add: consistent_def nodesOf_getAllInputNodes insert_commute)
  from unique_copy_inj [OF this] show ?thesis
    by (simp add: newAudioNodeProcessor_def nodesOf_getAllInputNodes insert_commute)
qed

lemma allNodes_subset: "set (allNodes (newAudioNodeProcessor g)) \<subseteq> set (nodesOf g)"
  using unique_copy_subset [of "\<lambda>n1 n2. address n1 = address n2" "getAllInputNodes g @ [g]"]
  by (auto simp: newAudioNodeProcessor_def nodesOf_getAllInputNodes)

lemma node_newAudioNodeProcessor [simp]: "node (newAudioNodeProcessor g) = g"
  by (simp add: newAudioNodeProcessor_def Let_def)

lemma addChannels_defined:
  "\<forall>i \<in> set cs. i < getNumChannels d \<and> i < getNumChannels s \<Longrightarrow>
   n \<le> getNumSamples d \<Longrightarrow> n \<le> getNumSamples s \<Longrightarrow> \<exists>d'. addChannels d s n cs = Some d'"
proof (induction cs arbitrary: d)
  case Nil
  then show ?case by simp
next
  case (Cons c cs)
  then obtain d1 where d1: "addFrom d c 0 s c 0 n = Some d1"
    by (auto simp: addFrom_def inRange_def Let_def)
  from addFrom_shape [OF d1] have "shape d1 = shape d" .
  with Cons.prems have "\<forall>i \<in> set cs. i < getNumChannels d1 \<and> i < getNumChannels s"
    and "n \<le> getNumSamples d1"
    by (auto simp: shape_def)
  from Cons.IH [OF this Cons.prems(3)] d1 show ?case by simp
qed

lemma copyChannels_defined:
  "\<forall>i \<in> set cs. i < getNumChannels d \<and> i < getNumChannels s \<Longrightarrow>
   n \<le> getNumSamples d \<Longrightarrow> n \<le> getNumSamples s \<Longrightarrow> \<exists>d'. copyChannels d s n cs = Some d'"
proof (induction cs arbitrary: d)
  case Nil
  then show ?case by simp
next
  case (Cons c cs)
  then obtain d1 where d1: "copyFrom d c 0 s c 0 n = Some d1"
    by (auto simp: copyFrom_def inRange_def Let_def)
  from copyFrom_shape [OF d1] have "shape d1 = shape d" .
  with Cons.prems have "\<forall>i \<in> set cs. i < getNumChannels d1 \<and> i < getNumChannels s"
    and "n \<le> getNumSamples d1"
    by (auto simp: shape_def)
  from Cons.IH [OF this Cons.prems(3)] d1 show ?case by simp
qed

lemma copyAudioBuffer_defined:
  "getNumSamples d \<le> getNumSamples s \<Longrightarrow> \<exists>d'. copyAudioBuffer d s = Some d'"
  unfolding copyAudioBuffer_def Let_def
  by (rule copyChannels_defined) auto

lemma sumInputs_defined:
  "\<forall>i \<in> set ns. n \<le> getNumSamples (getProcessedAudioOutput i m) \<Longrightarrow>
   n \<le> getNumSamples d \<Longrightarrow> \<exists>d'. sumInputs ns m n d = Some d'"
proof (induction ns arbitrary: d)
  case Nil
  then show ?case by simp
next
  case (Cons i ns)
  let ?s = "getProcessedAudioOutput i m"
  have "\<exists>d1. addChannels d ?s n [0 ..< min (getNumChannels d) (getNumChannels ?s)] = Some d1"
    by (rule addChannels_defined) (use Cons.prems in auto)
  then obtain d1 where
    d1: "addChannels d ?s n [0 ..< min (getNumChannels d) (getNumChannels ?s)] = Some d1" ..
  from addChannels_shape [OF d1] Cons.prems(2) have "n \<le> getNumSamples d1"
    by (simp add: shape_def)
  with Cons.IH [of d1] Cons.prems(1) d1 show ?case by (simp add: Let_def)
qed

lemma applyFunction_defined:
  "\<forall>c \<in> set cs. c < getNumChannels s \<and> c < getNumChannels b \<Longrightarrow>
   n \<le> getNumSamples s \<Longrightarrow> n \<le> getNumSamples b \<Longrightarrow> \<exists>b'. applyFunction f s n b cs = Some b'"
proof (induction cs arbitrary: b)
  case Nil
  then show ?case by simp
next
  case (Cons c cs)
  then obtain xs where xs: "readSamples s c n = Some xs" and len: "length xs \<le> n"
    by (cases "n = 0") (auto simp: readSamples_def inRange_def)
  with Cons.prems have "\<exists>b1. writeSamples b c (map f xs) = Some b1"
    by (simp add: writeSamples_def inRange_def)
  then obtain b1 where b1: "writeSamples b c (map f xs) = Some b1" ..
  from writeSamples_shape [OF b1] have "shape b1 = shape b" .
  with Cons.prems have "\<forall>c \<in> set cs. c < getNumChannels s \<and> c < getNumChannels b1"
    and "n \<le> getNumSamples b1"
    by (auto simp: shape_def)
  from Cons.IH [OF this(1) Cons.prems(2) this(2)] xs b1 show ?case by simp
qed

section \<open>A block runs to its end\<close>

lemma initialised_shape:
  "\<forall>x. shape (audioBuffer (objects m' x)) = shape (audioBuffer (objects m x)) \<Longrightarrow>
     initialised blockSize m' n = initialised blockSize m n"
  by (simp add: initialised_def)

lemma process_defined:
  assumes n: "n \<in> set (nodesOf g)"
    and inv: "\<forall>x \<in> set (nodesOf g). initialised blockSize m x"
    and dest: "shape destAudio = (numberOfChannels (getAudioNodeProperties n), blockSize)"
  shows "\<exists>r. process n m destAudio destMidi = Some r"
proof (cases n)
  case (SinAudioNode a osc)
  with dest have "getNumChannels destAudio = 1" and "getNumSamples destAudio = blockSize"
    by (simp_all add: shape_def)
  then show ?thesis
    by (simp add: SinAudioNode SinAudioNode_process_def Let_def writeSamples_def inRange_def)
next
  case (SummingAudioNode a ns)
  with n have "set ns \<subseteq> set (nodesOf g)" by (simp add: nodesOf_children)
  with inv have "\<forall>i \<in> set ns. blockSize \<le> getNumSamples (getProcessedAudioOutput i m)"
    by (auto simp: initialised_def shape_def getProcessedAudioOutput_def)
  moreover from dest have "getNumSamples destAudio = blockSize" by (simp add: shape_def)
  ultimately have "\<exists>d'. sumInputs ns m (getNumSamples destAudio) destAudio = Some d'"
    by (intro sumInputs_defined) simp_all
  then show ?thesis
    by (auto simp: SummingAudioNode SummingAudioNode_process_def)
next
  case (FunctionAudioNode a i f)
  with n have "i \<in> set (nodesOf g)" by (simp add: nodesOf_input)
  with inv have "getNumSamples (getProcessedAudioOutput i m) = blockSize"
    by (auto simp: initialised_def shape_def getProcessedAudioOutput_def)
  moreover from dest have "getNumSamples destAudio = blockSize" by (simp add: shape_def)
  ultimately have "\<exists>b'. applyFunction f (getProcessedAudioOutput i m) (getNumSamples destAudio)
      destAudio [0 ..< min (getNumChannels (getProcessedAudioOutput i m)) (getNumChannels destAudio)]
      = Some b'"
    by (intro applyFunction_defined) simp_all
  then show ?thesis
    by (auto simp: FunctionAudioNode FunctionAudioNode_process_def Let_def)
next
  case (NeverReadyAudioNode a k)
  then show ?thesis by simp
qed

lemma AudioNode_process_defined:
  assumes n: "n \<in> set (nodesOf g)"
    and inv: "\<forall>x \<in> set (nodesOf g). initialised blockSize m x"
  shows "\<exists>m'. AudioNode_process n m = Some m'"
proof -
  let ?a = "address n"
  let ?self = "(objects m ?a)\<lparr>audioBuffer := clear (audioBuffer (objects m ?a)), midiBuffer := []\<rparr>"
  let ?m1 = "called (Process ?a) (m\<lparr>objects := (objects m)(?a := ?self)\<rparr>)"
  have "\<forall>x. shape (audioBuffer (objects ?m1 x)) = shape (audioBuffer (objects m x))"
    by (simp add: called_def clear_shape)
  from initialised_shape [OF this] inv
  have inv1: "\<forall>x \<in> set (nodesOf g). initialised blockSize ?m1 x" by simp
  from inv n have "shape (audioBuffer ?self) = (numberOfChannels (getAudioNodeProperties n), blockSize)"
    by (auto simp: initialised_def clear_shape)
  from process_defined [OF n inv1 this, of "midiBuffer ?self"]
  show ?thesis
    by (auto simp: AudioNode_process_def Let_def)
qed

lemma AudioNode_process_initialised:
  "AudioNode_process n m = Some m' \<Longrightarrow> initialised blockSize m' x = initialised blockSize m x"
  by (rule initialised_shape) (simp add: AudioNode_process_shape)

lemma processPass_defined:
  "set ns \<subseteq> set (nodesOf g) \<Longrightarrow> \<forall>x \<in> set (nodesOf g). initialised blockSize m x \<Longrightarrow>
     \<exists>r. processPass ns m b = Some r"
proof (induction ns arbitrary: m b)
  case Nil
  then show ?case by simp
next
  case (Cons n ns)
  from Cons.prems have sub: "set ns \<subseteq> set (nodesOf g)" and n: "n \<in> set (nodesOf g)"
    by auto
  show ?case
  proof (cases "\<not> hasProcessed n m \<and> isReadyToProcess n m")
    case True
    from AudioNode_process_defined [OF n Cons.prems(2)]
    obtain m1 where m1: "AudioNode_process n m = Some m1" ..
    from Cons.prems(2) have "\<forall>x \<in> set (nodesOf g). initialised blockSize m1 x"
      by (simp add: AudioNode_process_initialised [OF m1])
    from Cons.IH [OF sub this, of True] True m1 show ?thesis by simp
  next
    case False
    with Cons.IH [OF sub Cons.prems(2), of b] show ?thesis by auto
  qed
qed

lemma processPass_initialised:
  "processPass ns m b = Some (m', b') \<Longrightarrow> initialised blockSize m' x = initialised blockSize m x"
  by (rule initialised_shape) (simp add: processPass_shape)

lemma processPass_stuck:
  "processPass ns m False = Some (m', False) \<Longrightarrow>
     m' = m \<and> (\<forall>n \<in> set ns. hasProcessed n m \<or> \<not> isReadyToProcess n m)"
proof (induction ns)
  case Nil
  then show ?case by simp
next
  case (Cons n ns)
  show ?case
  proof (cases "\<not> hasProcessed n m \<and> isReadyToProcess n m")
    case True
    with Cons.prems obtain m1 where "processPass ns m1 True = Some (m', False)"
      by (auto split: option.splits)
    from processPass_flags [OF this] show ?thesis by simp
  next
    case False
    with Cons show ?thesis by auto
  qed
qed

lemma processLoop_result:
  assumes "processLoop p m audio = Some (audio', m')"
  shows "processPass (allNodes p) m' False = Some (m', False)
     \<and> copyAudioBuffer audio (getProcessedAudioOutput (node p) m') = Some audio'"
  using assms
proof (induction p m audio rule: processLoop.induct)
  case (1 p m audio)
  from "1.prems" obtain m1 b where pass: "processPass (allNodes p) m False = Some (m1, b)"
    by (subst (asm) processLoop.simps) (auto split: option.splits)
  show ?case
  proof (cases b)
    case True
    with pass "1.prems" have "processLoop p m1 audio = Some (audio', m')"
      by (subst (asm) processLoop.simps) simp
    from "1.IH" [OF pass refl _ this] True show ?thesis by simp
  next
    case False
    with pass "1.prems" have c: "copyAudioBuffer audio (getProcessedAudioOutput (node p) m1) = Some audio'"
      and "m' = m1"
      by (subst (asm) processLoop.simps; auto split: option.splits)+
    moreover from processPass_stuck [of "allNodes p" m m1] pass False have "m1 = m" by simp
    ultimately show ?thesis using pass False by simp
  qed
qed

lemma processLoop_defined:
  assumes "set (allNodes p) \<subseteq> set (nodesOf g)" and "node p \<in> set (nodesOf g)"
    and "\<forall>x \<in> set (nodesOf g). initialised blockSize m x"
    and "getNumSamples audio \<le> blockSize"
  shows "\<exists>r. processLoop p m audio = Some r"
  using assms
proof (induction p m audio rule: processLoop.induct)
  case (1 p m audio)
  from processPass_defined [OF "1.prems"(1,3), of False]
  obtain m1 b where pass: "processPass (allNodes p) m False = Some (m1, b)" by auto
  from "1.prems"(3) have inv1: "\<forall>x \<in> set (nodesOf g). initialised blockSize m1 x"
    by (simp add: processPass_initialised [OF pass])
  show ?case
  proof (cases b)
    case True
    from "1.IH" [OF pass refl _ "1.prems"(1,2) inv1 "1.prems"(4)] True pass
    show ?thesis by (subst processLoop.simps) simp
  next
    case False
    from inv1 "1.prems"(2,4)
    have "getNumSamples audio \<le> getNumSamples (getProcessedAudioOutput (node p) m1)"
      by (auto simp: initialised_def shape_def getProcessedAudioOutput_def)
    from copyAudioBuffer_defined [OF this] False pass
    show ?thesis by (subst processLoop.simps) auto
  qed
qed

lemma stuck_all_processed:
  "builtIn n \<Longrightarrow> set (nodesOf n) \<subseteq> S \<Longrightarrow>
     \<forall>x \<in> S. hasProcessed x m \<or> \<not> isReadyToProcess x m \<Longrightarrow> hasProcessed n m"
proof (induction n)
  case (SinAudioNode a osc)
  then show ?case by auto
next
  case (SummingAudioNode a ns)
  have "hasProcessed c m" if "c \<in> set ns" for c
  proof -
    from that SummingAudioNode.prems(1) have "builtIn c" by (simp add: list_all_iff)
    moreover from that SummingAudioNode.prems(2) have "set (nodesOf c) \<subseteq> S" by auto
    ultimately show ?thesis using SummingAudioNode.IH [OF that] SummingAudioNode.prems(3) by blast
  qed
  then have "isReadyToProcess (SummingAudioNode a ns) m" by (simp add: list_all_iff)
  with SummingAudioNode.prems(2,3) show ?case by auto
next
  case (FunctionAudioNode a i f)
  then have "hasProcessed i m" by auto
  then have "isReadyToProcess (FunctionAudioNode a i f) m" by simp
  with FunctionAudioNode.prems(2,3) show ?case by auto
next
  case (NeverReadyAudioNode a k)
  then show ?case by simp
qed

lemma prepareForNextBlock_fold_flags:
  "hasBeenProcessed (objects (fold prepareForNextBlock ns m) x)
     = (x \<notin> address ` set ns \<and> hasBeenProcessed (objects m x))"
  by (induction ns arbitrary: m) (auto simp: prepareForNextBlock_def)

lemma prepareForNextBlock_fold_calls:
  "calls (fold prepareForNextBlock ns m) = calls m"
  by (induction ns arbitrary: m) (auto simp: prepareForNextBlock_def)

lemma prepareForNextBlock_fold_initialised:
  "initialised blockSize (fold prepareForNextBlock ns m) x = initialised blockSize m x"
  by (simp add: initialised_def prepareForNextBlock_fold_buffers)

lemma builtIn_closed: "builtIn g \<Longrightarrow> n \<in> set (nodesOf g) \<Longrightarrow> builtIn n"
proof (induction g)
  case (SummingAudioNode a ns)
  then show ?case by (fastforce simp: list_all_iff)
qed auto

lemma block_returns:
  assumes b: "builtIn g" and c: "consistent g"
    and inv: "\<forall>x \<in> set (nodesOf g). initialised blockSize m x"
    and len: "getNumSamples audio \<le> blockSize"
  shows "\<exists>audio' m'. AudioNodeProcessor_process (newAudioNodeProcessor g) m audio midi
             = Some (audio', midi, m')
           \<and> processLoop (newAudioNodeProcessor g)
               (fold prepareForNextBlock (allNodes (newAudioNodeProcessor g)) m) audio
             = Some (audio', m')
           \<and> (\<forall>n \<in> set (nodesOf g). hasProcessed n m')"
proof -
  let ?p = "newAudioNodeProcessor g"
  let ?m0 = "fold prepareForNextBlock (allNodes ?p) m"
  have all: "set (allNodes ?p) = set (nodesOf g)" using c by (rule allNodes_consistent)
  have root: "node ?p \<in> set (nodesOf g)" by (simp add: nodesOf_self)
  from inv have inv0: "\<forall>x \<in> set (nodesOf g). initialised blockSize ?m0 x"
    by (simp add: prepareForNextBlock_fold_initialised)
  from processLoop_defined [OF _ root inv0 len] all
  obtain audio' m' where loop: "processLoop ?p ?m0 audio = Some (audio', m')" by auto
  from processLoop_result [OF loop]
  have "processPass (allNodes ?p) m' False = Some (m', False)" by simp
  from processPass_stuck [OF this] all
  have stuck: "\<forall>x \<in> set (nodesOf g). hasProcessed x m' \<or> \<not> isReadyToProcess x m'" by simp
  have "hasProcessed n m'" if "n \<in> set (nodesOf g)" for n
  proof (rule stuck_all_processed [OF _ _ stuck])
    from b that show "builtIn n" by (rule builtIn_closed)
    from that show "set (nodesOf n) \<subseteq> set (nodesOf g)" by (rule nodesOf_closed)
  qed
  with loop show ?thesis by (simp add: AudioNodeProcessor_process_def)
qed


lemma prepareToPlay_buffers:
  "audioBuffer (objects (prepareToPlay n blockSize m) x) = audioBuffer (objects m x)"
proof (induction n arbitrary: m)
  case (SummingAudioNode a ns)
  have "audioBuffer (objects (fold (\<lambda>n. prepareToPlay n blockSize) cs m') x)
          = audioBuffer (objects m' x)" if "set cs \<subseteq> set ns" for cs m'
    using that by (induction cs arbitrary: m') (auto simp: SummingAudioNode.IH)
  then show ?case by (simp add: called_def)
qed (simp_all add: called_def Let_def)

lemma setSize_shape: "shape (setSize c k) = (c, k)"
  by (simp add: shape_def setSize_def getNumChannels_def getNumSamples_def)

lemma prepare_step_buffers:
  "audioBuffer (objects (prepareToPlay n blockSize (AudioNode_initialise n blockSize m)) x)
     = (if x = address n then setSize (numberOfChannels (getAudioNodeProperties n)) blockSize
        else audioBuffer (objects m x))"
  by (simp add: prepareToPlay_buffers AudioNode_initialise_def Let_def called_def)

lemma prepare_fold_initialised:
  assumes "inj_on address (set ns)"
  shows "(\<forall>x \<in> set ns. initialised blockSize
            (fold (\<lambda>n m'. prepareToPlay n blockSize (AudioNode_initialise n blockSize m')) ns m) x)
     \<and> (\<forall>a. a \<notin> address ` set ns \<longrightarrow>
            audioBuffer (objects
              (fold (\<lambda>n m'. prepareToPlay n blockSize (AudioNode_initialise n blockSize m')) ns m) a)
            = audioBuffer (objects m a))"
  using assms
proof (induction ns arbitrary: m)
  case Nil
  then show ?case by simp
next
  case (Cons n ns)
  let ?step = "\<lambda>n m'. prepareToPlay n blockSize (AudioNode_initialise n blockSize m')"
  let ?m1 = "?step n m"
  from Cons.prems have inj: "inj_on address (set ns)" by (simp add: inj_on_def)
  note IH = Cons.IH [OF inj, of ?m1]
  have n: "initialised blockSize (fold ?step ns ?m1) n"
  proof (cases "address n \<in> address ` set ns")
    case True
    then obtain y where y: "y \<in> set ns" "address y = address n" by auto
    with Cons.prems have "y = n" by (auto simp: inj_on_def)
    with y IH show ?thesis by simp
  next
    case False
    with IH have "audioBuffer (objects (fold ?step ns ?m1) (address n))
        = audioBuffer (objects ?m1 (address n))" by simp
    then show ?thesis by (simp add: initialised_def prepare_step_buffers setSize_shape)
  qed
  from IH n show ?case by (auto simp: prepare_step_buffers)
qed

lemma prepareToPlay_initialised:
  assumes "consistent g"
  shows "\<forall>x \<in> set (nodesOf g). initialised blockSize
           (AudioNodeProcessor_prepareToPlay (newAudioNodeProcessor g) blockSize m) x"
proof -
  from assms have all: "set (allNodes (newAudioNodeProcessor g)) = set (nodesOf g)"
    by (rule allNodes_consistent)
  with assms have "inj_on address (set (allNodes (newAudioNodeProcessor g)))"
    by (simp add: consistent_def)
  from prepare_fold_initialised [OF this, of blockSize m] all show ?thesis
    by (simp add: AudioNodeProcessor_prepareToPlay_def)
qed

lemma distinct_consistent: "distinct (map address (nodesOf g)) \<Longrightarrow> consistent g"
  by (simp add: consistent_def distinct_map)

lemma consistent_diamond: "consistent diamond"
  by (auto simp: consistent_def diamond_def inj_on_def)

section \<open>Termination with every node produced\<close>

text \<open>
  The graph of the file's cancelling test (a sine, and a second sine through a negating
  function node, summed), prepared for blocks of two samples, and a caller's buffer.
\<close>

definition cancellingProcessor :: "int AudioNodeProcessor" where
  "cancellingProcessor = newAudioNodeProcessor cancelling"

definition cancellingMemory :: "int memory" where
  "cancellingMemory = AudioNodeProcessor_prepareToPlay cancellingProcessor 2 newMemory"

definition callerBuffer :: "int AudioBuffer" where
  "callerBuffer = \<lparr>channels = [[5, 6]], numSamples = 2\<rparr>"

lemma cancelling_builtIn: "builtIn cancelling"
  by (simp add: cancelling_def)

lemma cancelling_consistent: "consistent cancelling"
  by (rule distinct_consistent) (simp add: cancelling_def)

lemma cancelling_initialised:
  "list_all (initialised 2 cancellingMemory) (nodesOf cancelling)"
  unfolding list_all_iff cancellingMemory_def cancellingProcessor_def
  by (rule prepareToPlay_initialised [OF cancelling_consistent])

lemma callerBuffer_samples: "getNumSamples callerBuffer \<le> 2"
  by (simp add: callerBuffer_def getNumSamples_def)

text \<open>
  C3. For every finite acyclic graph of sine, summing and function nodes whose buffers
  have the shape their initialisation gives them, one call of the processor's block
  processing on a caller's buffer of at most the block size returns, and when it returns
  every node of the graph, the root included, has its processed flag set.
\<close>

theorem block_terminates_all_produced:
  assumes "builtIn g" and "consistent g"
    and "list_all (initialised blockSize m) (nodesOf g)"
    and "getNumSamples audio \<le> blockSize"
  shows "\<exists>audio' m'. AudioNodeProcessor_process (newAudioNodeProcessor g) m audio midi
             = Some (audio', midi, m')
           \<and> list_all (\<lambda>n. hasProcessed n m') (nodesOf g)"
proof -
  from assms(3) have "\<forall>x \<in> set (nodesOf g). initialised blockSize m x"
    by (simp add: list_all_iff)
  from block_returns [OF assms(1,2) this assms(4), of midi] show ?thesis
    by (auto simp: list_all_iff)
qed

theorem block_terminates_all_produced_witness:
  "builtIn cancelling \<and> consistent cancelling
   \<and> list_all (initialised 2 cancellingMemory) (nodesOf cancelling)
   \<and> getNumSamples callerBuffer \<le> 2
   \<and> (\<exists>audio' m'. AudioNodeProcessor_process (newAudioNodeProcessor cancelling)
           cancellingMemory callerBuffer [] = Some (audio', [], m')
         \<and> list_all (\<lambda>n. hasProcessed n m') (nodesOf cancelling))"
  using block_terminates_all_produced [OF cancelling_builtIn cancelling_consistent
      cancelling_initialised callerBuffer_samples, of "[]"]
    cancelling_builtIn cancelling_consistent cancelling_initialised callerBuffer_samples
  by (intro conjI)


section \<open>Shape preservation\<close>

lemma AudioNodeProcessor_process_shape:
  assumes "AudioNodeProcessor_process p m audio midi = Some (audio', midi', m')"
  shows "shape audio' = shape audio"
    and "shape (audioBuffer (objects m' x)) = shape (audioBuffer (objects m x))"
proof -
  from assms have "processLoop p (fold prepareForNextBlock (allNodes p) m) audio = Some (audio', m')"
    by (auto simp: AudioNodeProcessor_process_def split: option.splits)
  from processLoop_shape [OF this, of x]
  show "shape audio' = shape audio"
    and "shape (audioBuffer (objects m' x)) = shape (audioBuffer (objects m x))"
    by (simp_all add: prepareForNextBlock_fold_buffers)
qed

text \<open>
  C7. Processing a node leaves the channel count and the frame count of every node's
  buffer, its own included, as they were; and so does a whole block.
\<close>

theorem produce_keeps_shape:
  "(AudioNode_process n m = Some m1 \<longrightarrow>
      shape (audioBuffer (objects m1 x)) = shape (audioBuffer (objects m x)))
   \<and> (AudioNodeProcessor_process p m audio midi = Some (audio', midi', m2) \<longrightarrow>
      shape (audioBuffer (objects m2 x)) = shape (audioBuffer (objects m x)))"
proof (intro conjI impI)
  assume "AudioNode_process n m = Some m1"
  then show "shape (audioBuffer (objects m1 x)) = shape (audioBuffer (objects m x))"
    by (rule AudioNode_process_shape)
next
  assume "AudioNodeProcessor_process p m audio midi = Some (audio', midi', m2)"
  then show "shape (audioBuffer (objects m2 x)) = shape (audioBuffer (objects m x))"
    by (rule AudioNodeProcessor_process_shape(2))
qed

theorem produce_keeps_shape_witness:
  "\<exists>m1 audio' midi' m2.
     AudioNode_process (SinAudioNode 1 (\<lambda>k. int k)) cancellingMemory = Some m1
     \<and> shape (audioBuffer (objects m1 1)) = (1, 2)
     \<and> AudioNodeProcessor_process cancellingProcessor cancellingMemory callerBuffer []
         = Some (audio', midi', m2)
     \<and> shape (audioBuffer (objects m2 1)) = (1, 2)"
proof -
  have inv: "\<forall>x \<in> set (nodesOf cancelling). initialised 2 cancellingMemory x"
    using cancelling_initialised by (simp add: list_all_iff)
  have n: "SinAudioNode 1 (\<lambda>k. int k) \<in> set (nodesOf cancelling)"
    by (simp add: cancelling_def)
  from inv n have before: "shape (audioBuffer (objects cancellingMemory 1)) = (1, 2)"
    by (auto simp: initialised_def)
  from AudioNode_process_defined [OF n inv]
  obtain m1 where m1: "AudioNode_process (SinAudioNode 1 (\<lambda>k. int k)) cancellingMemory = Some m1" ..
  from block_returns [OF cancelling_builtIn cancelling_consistent inv callerBuffer_samples, of "[]"]
  obtain audio' m2 where m2: "AudioNodeProcessor_process cancellingProcessor cancellingMemory
      callerBuffer [] = Some (audio', [], m2)"
    by (auto simp: cancellingProcessor_def)
  from produce_keeps_shape [of "SinAudioNode 1 (\<lambda>k. int k)" cancellingMemory m1 1
      cancellingProcessor callerBuffer "[]" audio' "[]" m2] m1 m2 before
  have "shape (audioBuffer (objects m1 1)) = (1, 2)"
    and "shape (audioBuffer (objects m2 1)) = (1, 2)"
    by simp_all
  with m1 m2 show ?thesis by blast
qed

section \<open>Every node is processed exactly once in a block\<close>

text \<open>
  Whether the flag at an address is set in the later memory and was not in the earlier
  one, as a number: what the recorded \<open>Process\<close> calls at that address must add up to.
\<close>

definition newlyProcessed :: "'a memory \<Rightarrow> 'a memory \<Rightarrow> nat \<Rightarrow> nat" where
  "newlyProcessed m m' a =
     (if hasBeenProcessed (objects m' a) \<and> \<not> hasBeenProcessed (objects m a) then 1 else 0)"

lemma processPass_calls:
  "processPass ns m b = Some (m', b') \<Longrightarrow>
     \<exists>new. calls m' = calls m @ new
       \<and> (\<forall>a. count_list new (Process a) = newlyProcessed m m' a)"
proof (induction ns arbitrary: m b)
  case Nil
  then show ?case by (simp add: newlyProcessed_def)
next
  case (Cons n ns)
  show ?case
  proof (cases "\<not> hasProcessed n m \<and> isReadyToProcess n m")
    case True
    with Cons.prems obtain m1 where
      m1: "AudioNode_process n m = Some m1" and rest: "processPass ns m1 True = Some (m', b')"
      by (auto split: option.splits)
    from Cons.IH [OF rest] obtain new where
      new: "calls m' = calls m1 @ new" "\<forall>a. count_list new (Process a) = newlyProcessed m1 m' a"
      by blast
    have flags1: "hasBeenProcessed (objects m1 a) = (a = address n \<or> hasBeenProcessed (objects m a))"
      for a using m1 by (rule AudioNode_process_flags)
    have mono: "hasBeenProcessed (objects m1 a) \<longrightarrow> hasBeenProcessed (objects m' a)" for a
      using processPass_flags [OF rest] by simp
    have "calls m' = calls m @ (Process (address n) # new)"
      using new(1) AudioNode_process_calls [OF m1] by simp
    moreover have "count_list (Process (address n) # new) (Process a) = newlyProcessed m m' a" for a
    proof (cases "a = address n")
      case same: True
      with flags1 [of a] mono [of a] True new(2) show ?thesis
        by (simp add: newlyProcessed_def hasProcessed_def)
    next
      case False
      with flags1 [of a] new(2) show ?thesis
        by (simp add: newlyProcessed_def)
    qed
    ultimately show ?thesis by (intro exI [of _ "Process (address n) # new"]) simp
  next
    case False
    with Cons.prems have rest: "processPass ns m b = Some (m', b')" by auto
    from Cons.IH [OF rest] show ?thesis .
  qed
qed

lemma newly_add:
  "A \<longrightarrow> B \<Longrightarrow> B \<longrightarrow> C \<Longrightarrow>
     (if B \<and> \<not> A then 1 else 0) + (if C \<and> \<not> B then 1 else 0)
       = (if C \<and> \<not> A then (1::nat) else 0)"
  by (cases A; cases B; cases C) simp_all

lemma processLoop_calls:
  "processLoop p m audio = Some (audio', m') \<Longrightarrow>
     (\<forall>a. hasBeenProcessed (objects m a) \<longrightarrow> hasBeenProcessed (objects m' a))
     \<and> (\<exists>new. calls m' = calls m @ new
           \<and> (\<forall>a. count_list new (Process a) = newlyProcessed m m' a))"
proof (induction p m audio rule: processLoop.induct)
  case (1 p m audio)
  from "1.prems" obtain m1 b where pass: "processPass (allNodes p) m False = Some (m1, b)"
    by (subst (asm) processLoop.simps) (auto split: option.splits)
  from processPass_flags [OF pass]
  have mono1: "hasBeenProcessed (objects m a) \<longrightarrow> hasBeenProcessed (objects m1 a)" for a
    by simp
  from processPass_calls [OF pass] obtain new1 where
    new1: "calls m1 = calls m @ new1" "\<forall>a. count_list new1 (Process a) = newlyProcessed m m1 a"
    by blast
  show ?case
  proof (cases b)
    case True
    with pass "1.prems" have "processLoop p m1 audio = Some (audio', m')"
      by (subst (asm) processLoop.simps) simp
    from "1.IH" [OF pass refl _ this] True
    have mono2: "\<forall>a. hasBeenProcessed (objects m1 a) \<longrightarrow> hasBeenProcessed (objects m' a)"
      and "\<exists>new. calls m' = calls m1 @ new
             \<and> (\<forall>a. count_list new (Process a) = newlyProcessed m1 m' a)"
      by simp_all
    then obtain new2 where new2: "calls m' = calls m1 @ new2"
        "\<forall>a. count_list new2 (Process a) = newlyProcessed m1 m' a"
      by blast
    have "calls m' = calls m @ (new1 @ new2)" using new1(1) new2(1) by simp
    moreover have "count_list (new1 @ new2) (Process a) = newlyProcessed m m' a" for a
    proof -
      have "count_list (new1 @ new2) (Process a) = newlyProcessed m m1 a + newlyProcessed m1 m' a"
        using new1(2) [rule_format, of a] new2(2) [rule_format, of a] by simp
      also have "\<dots> = newlyProcessed m m' a"
        unfolding newlyProcessed_def
        using mono1 [of a] spec [OF mono2, of a] by (rule newly_add)
      finally show ?thesis .
    qed
    moreover have "hasBeenProcessed (objects m a) \<longrightarrow> hasBeenProcessed (objects m' a)" for a
      using mono1 [of a] mono2 [rule_format, of a] by simp
    ultimately show ?thesis by (intro conjI allI exI [of _ "new1 @ new2"]) simp_all
  next
    case False
    with pass "1.prems" have "m' = m1"
      by (subst (asm) processLoop.simps) (auto split: option.splits)
    with mono1 new1 show ?thesis by (intro conjI allI exI [of _ new1]) simp_all
  qed
qed

text \<open>
  C4. Within one block, for every node of a finite acyclic graph of sine, summing and
  function nodes (a node held by several parents included): its flag is clear after the
  reset that opens the block, it is set when the block ends, and its processing step is
  called exactly once in between.
\<close>

theorem each_node_processed_once:
  assumes "builtIn g" and "consistent g"
    and "list_all (initialised blockSize m) (nodesOf g)"
    and "getNumSamples audio \<le> blockSize"
    and "n \<in> set (nodesOf g)"
  shows "\<not> hasProcessed n (fold prepareForNextBlock (allNodes (newAudioNodeProcessor g)) m)
     \<and> (\<exists>audio' m' new.
           AudioNodeProcessor_process (newAudioNodeProcessor g) m audio midi
             = Some (audio', midi, m')
           \<and> hasProcessed n m'
           \<and> calls m' = calls m @ new
           \<and> count_list new (Process (address n)) = 1)"
proof -
  let ?p = "newAudioNodeProcessor g"
  let ?m0 = "fold prepareForNextBlock (allNodes ?p) m"
  from assms(2) have all: "set (allNodes ?p) = set (nodesOf g)" by (rule allNodes_consistent)
  with assms(5) have reset: "\<not> hasProcessed n ?m0"
    by (simp add: hasProcessed_def prepareForNextBlock_fold_flags)
  from assms(3) have "\<forall>x \<in> set (nodesOf g). initialised blockSize m x"
    by (simp add: list_all_iff)
  from block_returns [OF assms(1,2) this assms(4), of midi] obtain audio' m' where
    r: "AudioNodeProcessor_process ?p m audio midi = Some (audio', midi, m')"
    and loop: "processLoop ?p ?m0 audio = Some (audio', m')"
    and fin: "\<forall>x \<in> set (nodesOf g). hasProcessed x m'"
    by blast
  from processLoop_calls [OF loop] obtain new where
    new: "calls m' = calls ?m0 @ new" "\<forall>a. count_list new (Process a) = newlyProcessed ?m0 m' a"
    by blast
  from new(1) have c: "calls m' = calls m @ new"
    by (simp add: prepareForNextBlock_fold_calls)
  from fin assms(5) have "hasProcessed n m'" by blast
  with reset have "newlyProcessed ?m0 m' (address n) = 1"
    by (simp add: newlyProcessed_def hasProcessed_def)
  with new(2) have "count_list new (Process (address n)) = 1" by simp
  with r reset c \<open>hasProcessed n m'\<close> show ?thesis by blast
qed

text \<open>The diamond, in which the sine node 3 has two parents, prepared for blocks of two samples.\<close>

definition diamondProcessor :: "int AudioNodeProcessor" where
  "diamondProcessor = newAudioNodeProcessor diamond"

definition diamondMemory :: "int memory" where
  "diamondMemory = AudioNodeProcessor_prepareToPlay diamondProcessor 2 newMemory"

lemma diamond_builtIn: "builtIn diamond"
  by (simp add: diamond_def)

lemma diamond_initialised: "list_all (initialised 2 diamondMemory) (nodesOf diamond)"
  unfolding list_all_iff diamondMemory_def diamondProcessor_def
  by (rule prepareToPlay_initialised [OF consistent_diamond])

lemma diamond_shared: "SinAudioNode 3 (\<lambda>k. 0) \<in> set (nodesOf diamond)"
  by (simp add: diamond_def)

theorem each_node_processed_once_witness:
  "builtIn diamond \<and> consistent diamond
   \<and> list_all (initialised 2 diamondMemory) (nodesOf diamond)
   \<and> getNumSamples callerBuffer \<le> 2
   \<and> SinAudioNode 3 (\<lambda>k. 0) \<in> set (nodesOf diamond)
   \<and> count_list (map address (nodesOf diamond)) 3 = 2
   \<and> \<not> hasProcessed (SinAudioNode 3 (\<lambda>k. 0))
         (fold prepareForNextBlock (allNodes (newAudioNodeProcessor diamond)) diamondMemory)
   \<and> (\<exists>audio' m' new.
         AudioNodeProcessor_process (newAudioNodeProcessor diamond) diamondMemory callerBuffer []
           = Some (audio', [], m')
         \<and> hasProcessed (SinAudioNode 3 (\<lambda>k. 0)) m'
         \<and> calls m' = calls diamondMemory @ new
         \<and> count_list new (Process 3) = 1)"
proof -
  have "count_list (map address (nodesOf diamond)) 3 = 2"
    by (simp add: diamond_def)
  with each_node_processed_once [OF diamond_builtIn consistent_diamond diamond_initialised
      callerBuffer_samples diamond_shared, of "[]"]
    diamond_builtIn consistent_diamond diamond_initialised callerBuffer_samples diamond_shared
  show ?thesis by simp
qed

section \<open>What the buffers hold\<close>

text \<open>\<^verbatim>\<open>getSample (channel, sampleIndex)\<close>, for stating what a buffer holds.\<close>

definition getSample :: "'a AudioBuffer \<Rightarrow> nat \<Rightarrow> nat \<Rightarrow> 'a" where
  "getSample b channel sampleIndex = channels b ! channel ! sampleIndex"

lemma copyFrom_channels:
  "copyFrom d c 0 s c 0 n = Some d' \<Longrightarrow>
     channels d' = (channels d)[c := take n (channels s ! c) @ drop n (channels d ! c)]
     \<and> numSamples d' = numSamples d"
  by (auto simp: copyFrom_def Let_def split: if_splits)

lemma addFrom_channels:
  "addFrom d c 0 s c 0 n = Some d' \<Longrightarrow>
     channels d' = (channels d)[c :=
        map2 (+) (take n (channels d ! c)) (take n (channels s ! c)) @ drop n (channels d ! c)]
     \<and> numSamples d' = numSamples d"
  by (auto simp: addFrom_def Let_def split: if_splits)

lemma writeSamples_channels:
  "writeSamples b c xs = Some b' \<Longrightarrow>
     channels b' = (if xs = [] then channels b
                    else (channels b)[c := xs @ drop (length xs) (channels b ! c)])
     \<and> numSamples b' = numSamples b"
  by (auto simp: writeSamples_def split: if_splits)

lemma copyChannels_channels:
  "copyChannels d s n cs = Some d' \<Longrightarrow> distinct cs \<Longrightarrow> c < getNumChannels d \<Longrightarrow>
     channels d' ! c = (if c \<in> set cs then take n (channels s ! c) @ drop n (channels d ! c)
                        else channels d ! c)"
proof (induction cs arbitrary: d)
  case Nil
  then show ?case by simp
next
  case (Cons k cs)
  from Cons.prems(1) obtain d1 where d1: "copyFrom d k 0 s k 0 n = Some d1"
    and rest: "copyChannels d1 s n cs = Some d'"
    by (auto split: option.splits)
  from copyFrom_channels [OF d1]
  have ch: "channels d1 = (channels d)[k := take n (channels s ! k) @ drop n (channels d ! k)]"
    by simp
  from copyFrom_shape [OF d1] Cons.prems(3) have c1: "c < getNumChannels d1"
    by (simp add: shape_def)
  from Cons.prems(2) have dist: "distinct cs" and k: "k \<notin> set cs" by simp_all
  note IH = Cons.IH [OF rest dist c1]
  show ?case
  proof (cases "c = k")
    case True
    with k IH ch Cons.prems(3) show ?thesis by (simp add: getNumChannels_def)
  next
    case False
    with IH ch show ?thesis by simp
  qed
qed

lemma copyAudioBuffer_channels:
  assumes "copyAudioBuffer dest source = Some dest'" and "c < getNumChannels dest"
  shows "channels dest' ! c =
     (if c < getNumChannels source
      then take (getNumSamples dest) (channels source ! c)
           @ drop (getNumSamples dest) (channels dest ! c)
      else channels dest ! c)"
  using copyChannels_channels [of dest source "getNumSamples dest"
      "[0 ..< min (getNumChannels dest) (getNumChannels source)]" dest' c] assms
  by (simp add: copyAudioBuffer_def Let_def)

lemma wellShaped_nth:
  "wellShaped b \<Longrightarrow> c < getNumChannels b \<Longrightarrow> length (channels b ! c) = getNumSamples b"
  by (simp add: wellShaped_def list_all_length getNumChannels_def getNumSamples_def)

section \<open>The copy into the caller's buffer\<close>

text \<open>
  C9. At the end of a block the destination's channel \<open>c\<close> holds the root's channel \<open>c\<close>
  (as many samples as the destination has) when \<open>c\<close> is below both channel counts, and
  exactly what it held before when \<open>c\<close> is at or beyond the root's channel count.
\<close>

theorem root_copied_to_destination:
  assumes "builtIn g" and "consistent g"
    and "list_all (initialised blockSize m) (nodesOf g)"
    and "getNumSamples audio \<le> blockSize"
    and "wellShaped audio" and "c < getNumChannels audio"
  shows "\<exists>audio' m'.
      AudioNodeProcessor_process (newAudioNodeProcessor g) m audio midi = Some (audio', midi, m')
      \<and> hasProcessed g m'
      \<and> shape audio' = shape audio
      \<and> channels audio' ! c =
          (if c < getNumChannels (getProcessedAudioOutput g m')
           then take (getNumSamples audio) (channels (getProcessedAudioOutput g m') ! c)
           else channels audio ! c)"
proof -
  let ?p = "newAudioNodeProcessor g"
  from assms(3) have "\<forall>x \<in> set (nodesOf g). initialised blockSize m x"
    by (simp add: list_all_iff)
  from block_returns [OF assms(1,2) this assms(4), of midi] obtain audio' m' where
    r: "AudioNodeProcessor_process ?p m audio midi = Some (audio', midi, m')"
    and loop: "processLoop ?p (fold prepareForNextBlock (allNodes ?p) m) audio = Some (audio', m')"
    and fin: "\<forall>x \<in> set (nodesOf g). hasProcessed x m'"
    by blast
  from processLoop_result [OF loop]
  have copy: "copyAudioBuffer audio (getProcessedAudioOutput g m') = Some audio'" by simp
  from fin have root: "hasProcessed g m'" by (simp add: nodesOf_self)
  from copyAudioBuffer_shape [OF copy] have sh: "shape audio' = shape audio" .
  from wellShaped_nth [OF assms(5,6)] have "drop (getNumSamples audio) (channels audio ! c) = []"
    by simp
  with copyAudioBuffer_channels [OF copy assms(6)]
  have "channels audio' ! c =
          (if c < getNumChannels (getProcessedAudioOutput g m')
           then take (getNumSamples audio) (channels (getProcessedAudioOutput g m') ! c)
           else channels audio ! c)"
    by simp
  with r root sh show ?thesis by blast
qed

text \<open>A caller's buffer with one channel more than the cancelling graph's root has.\<close>

definition stereoBuffer :: "int AudioBuffer" where
  "stereoBuffer = \<lparr>channels = [[5, 6], [7, 8]], numSamples = 2\<rparr>"

lemma cancelling_channels:
  "initialised 2 m cancelling \<Longrightarrow> getNumChannels (getProcessedAudioOutput cancelling m) = 1"
  by (simp add: initialised_def shape_def getProcessedAudioOutput_def cancelling_def)

theorem root_copied_to_destination_witness:
  "builtIn cancelling \<and> consistent cancelling
   \<and> list_all (initialised 2 cancellingMemory) (nodesOf cancelling)
   \<and> getNumSamples stereoBuffer \<le> 2 \<and> wellShaped stereoBuffer
   \<and> 1 < getNumChannels stereoBuffer
   \<and> (\<exists>audio' m'.
        AudioNodeProcessor_process (newAudioNodeProcessor cancelling) cancellingMemory
          stereoBuffer [] = Some (audio', [], m')
        \<and> getNumChannels (getProcessedAudioOutput cancelling m') = 1
        \<and> channels audio' ! 0 = take 2 (channels (getProcessedAudioOutput cancelling m') ! 0)
        \<and> channels audio' ! 1 = [7, 8])"
proof -
  have s: "getNumSamples stereoBuffer \<le> 2" and w: "wellShaped stereoBuffer"
    and c0: "0 < getNumChannels stereoBuffer" and c1: "1 < getNumChannels stereoBuffer"
    by (simp_all add: stereoBuffer_def getNumSamples_def wellShaped_def getNumChannels_def)
  have inv: "\<forall>x \<in> set (nodesOf cancelling). initialised 2 cancellingMemory x"
    using cancelling_initialised by (simp add: list_all_iff)
  from block_returns [OF cancelling_builtIn cancelling_consistent inv s, of "[]"] obtain audio' m'
    where r: "AudioNodeProcessor_process (newAudioNodeProcessor cancelling) cancellingMemory
          stereoBuffer [] = Some (audio', [], m')"
    by blast
  from AudioNodeProcessor_process_shape(2) [OF r] inv
  have "initialised 2 m' cancelling"
    by (simp add: initialised_def nodesOf_self)
  then have n: "getNumChannels (getProcessedAudioOutput cancelling m') = 1"
    by (rule cancelling_channels)
  from root_copied_to_destination [OF cancelling_builtIn cancelling_consistent
      cancelling_initialised s w c0, of "[]"] r n
  have a0: "channels audio' ! 0 = take 2 (channels (getProcessedAudioOutput cancelling m') ! 0)"
    by (simp add: stereoBuffer_def getNumSamples_def)
  from root_copied_to_destination [OF cancelling_builtIn cancelling_consistent
      cancelling_initialised s w c1, of "[]"] r n
  have a1: "channels audio' ! 1 = [7, 8]"
    by (simp add: stereoBuffer_def)
  from r n a0 a1 cancelling_builtIn cancelling_consistent cancelling_initialised s w c1
  show ?thesis by blast
qed

section \<open>The caller's MIDI buffer\<close>

text \<open>
  C10. Block processing gives the caller's MIDI buffer back as it received it, and the
  \<^verbatim>\<open>process\<close> override of every node variant does the same with its MIDI destination.
\<close>

theorem midi_destination_untouched:
  "(AudioNodeProcessor_process p m audio midi = Some (audio', midi', m') \<longrightarrow> midi' = midi)
   \<and> (process n m0 destAudio destMidi = Some (destAudio', destMidi', m'') \<longrightarrow>
        destMidi' = destMidi)"
proof (intro conjI impI)
  assume "AudioNodeProcessor_process p m audio midi = Some (audio', midi', m')"
  then show "midi' = midi"
    by (auto simp: AudioNodeProcessor_process_def split: option.splits)
next
  assume "process n m0 destAudio destMidi = Some (destAudio', destMidi', m'')"
  then show "destMidi' = destMidi" by (rule process_frame(2))
qed

theorem midi_destination_untouched_witness:
  "\<exists>audio' midi' m' destAudio' destMidi' m''.
     AudioNodeProcessor_process cancellingProcessor cancellingMemory callerBuffer [(0, [144, 60, 100])]
       = Some (audio', midi', m')
     \<and> midi' = [(0, [144, 60, 100])]
     \<and> process cancelling m' callerBuffer [(1, [128, 60, 0])] = Some (destAudio', destMidi', m'')
     \<and> destMidi' = [(1, [128, 60, 0])]"
proof -
  have inv: "\<forall>x \<in> set (nodesOf cancelling). initialised 2 cancellingMemory x"
    using cancelling_initialised by (simp add: list_all_iff)
  from block_returns [OF cancelling_builtIn cancelling_consistent inv callerBuffer_samples,
      of "[(0, [144, 60, 100])]"] obtain audio' m'
    where r: "AudioNodeProcessor_process cancellingProcessor cancellingMemory callerBuffer
          [(0, [144, 60, 100])] = Some (audio', [(0, [144, 60, 100])], m')"
    by (auto simp: cancellingProcessor_def)
  from AudioNodeProcessor_process_shape(2) [OF r] inv
  have inv': "\<forall>x \<in> set (nodesOf cancelling). initialised 2 m' x"
    by (simp add: initialised_def)
  have "shape callerBuffer = (numberOfChannels (getAudioNodeProperties cancelling), 2)"
    by (simp add: shape_def callerBuffer_def cancelling_def getNumChannels_def getNumSamples_def)
  from process_defined [OF nodesOf_self inv' this, of "[(1, [128, 60, 0])]"] obtain destAudio' destMidi' m''
    where v: "process cancelling m' callerBuffer [(1, [128, 60, 0])] = Some (destAudio', destMidi', m'')"
    by (metis prod_cases3)
  from midi_destination_untouched [of cancellingProcessor cancellingMemory callerBuffer
      "[(0, [144, 60, 100])]" audio' "[(0, [144, 60, 100])]" m' cancelling m' callerBuffer
      "[(1, [128, 60, 0])]" destAudio' destMidi' m''] r v
  show ?thesis by blast
qed

section \<open>The function node\<close>

lemma wellShaped_update:
  "wellShaped b \<Longrightarrow> length y = numSamples b \<Longrightarrow>
     wellShaped (b\<lparr>channels := (channels b)[k := y]\<rparr>)"
  by (cases "k < length (channels b)")
    (auto simp: wellShaped_def list_all_length nth_list_update)

lemma writeSamples_full:
  assumes "writeSamples b k xs = Some b'" and "wellShaped b" and "length xs = getNumSamples b"
    and "k < getNumChannels b"
  shows "wellShaped b'" and "channels b' = (channels b)[k := xs]"
proof -
  from wellShaped_nth [OF assms(2,4)] assms(3) have len: "length (channels b ! k) = length xs"
    by simp
  show "channels b' = (channels b)[k := xs]"
  proof (cases "xs = []")
    case True
    with len have "(channels b)[k := xs] = channels b"
      by (metis length_0_conv list_update_id)
    with True assms(1) show ?thesis by (simp add: writeSamples_def)
  next
    case False
    with assms(1) len show ?thesis
      by (auto simp: writeSamples_def split: if_splits)
  qed
  then have "b' = b\<lparr>channels := (channels b)[k := xs]\<rparr>"
    using writeSamples_channels [OF assms(1)] by simp
  with wellShaped_update [OF assms(2), of xs k] assms(3) show "wellShaped b'"
    by (simp add: getNumSamples_def)
qed

lemma applyFunction_channels:
  "applyFunction f s n b cs = Some b' \<Longrightarrow> distinct cs \<Longrightarrow> c < getNumChannels b \<Longrightarrow>
   wellShaped s \<Longrightarrow> wellShaped b \<Longrightarrow> n = getNumSamples b \<Longrightarrow> n \<le> getNumSamples s \<Longrightarrow>
   \<forall>k \<in> set cs. k < getNumChannels s \<and> k < getNumChannels b \<Longrightarrow>
     wellShaped b'
     \<and> channels b' ! c = (if c \<in> set cs then map f (take n (channels s ! c)) else channels b ! c)"
proof (induction cs arbitrary: b)
  case Nil
  then show ?case by simp
next
  case (Cons k cs)
  from Cons.prems(1) obtain xs b1 where xs: "readSamples s k n = Some xs"
    and b1: "writeSamples b k (map f xs) = Some b1"
    and rest: "applyFunction f s n b1 cs = Some b'"
    by (auto split: option.splits)
  from Cons.prems(8) have ks: "k < getNumChannels s" and kb: "k < getNumChannels b"
    by simp_all
  from wellShaped_nth [OF Cons.prems(4) ks] Cons.prems(7)
  have lens: "n \<le> length (channels s ! k)" by simp
  from xs have xs': "xs = take n (channels s ! k)"
    by (auto simp: readSamples_def split: if_splits)
  with lens Cons.prems(6) have lxs: "length (map f xs) = getNumSamples b" by simp
  from writeSamples_full [OF b1 Cons.prems(5) lxs kb]
  have w1: "wellShaped b1" and ch1: "channels b1 = (channels b)[k := map f xs]" .
  from writeSamples_shape [OF b1] have sh: "shape b1 = shape b" .
  with Cons.prems(3,6,8) have c1: "c < getNumChannels b1" and n1: "n = getNumSamples b1"
    and r1: "\<forall>j \<in> set cs. j < getNumChannels s \<and> j < getNumChannels b1"
    by (simp_all add: shape_def)
  from Cons.prems(2) have dist: "distinct cs" and k: "k \<notin> set cs" by simp_all
  note IH = Cons.IH [OF rest dist c1 Cons.prems(4) w1 n1 Cons.prems(7) r1]
  show ?case
  proof (cases "c = k")
    case True
    with k IH ch1 xs' kb show ?thesis by (simp add: getNumChannels_def)
  next
    case False
    with IH ch1 show ?thesis by simp
  qed
qed

text \<open>
  C8. The function node's \<^verbatim>\<open>process\<close> returns, leaves the output buffer's shape and the
  MIDI destination as they were, makes channel \<open>c\<close> of the output the input's channel \<open>c\<close>
  with the function applied to each sample when \<open>c\<close> is below both channel counts, and
  leaves every other channel of the output alone.
\<close>

theorem function_node_maps_samples:
  assumes "wellShaped outputBuffer"
    and "wellShaped (getProcessedAudioOutput input m)"
    and "getNumSamples outputBuffer \<le> getNumSamples (getProcessedAudioOutput input m)"
    and "c < getNumChannels outputBuffer"
  shows "\<exists>outputBuffer'.
      process (FunctionAudioNode a input f) m outputBuffer midi = Some (outputBuffer', midi, m)
      \<and> shape outputBuffer' = shape outputBuffer
      \<and> channels outputBuffer' ! c =
          (if c < getNumChannels (getProcessedAudioOutput input m)
           then map f (take (getNumSamples outputBuffer)
                         (channels (getProcessedAudioOutput input m) ! c))
           else channels outputBuffer ! c)"
proof -
  let ?s = "getProcessedAudioOutput input m"
  let ?n = "getNumSamples outputBuffer"
  let ?cs = "[0 ..< min (getNumChannels ?s) (getNumChannels outputBuffer)]"
  have r: "\<forall>k \<in> set ?cs. k < getNumChannels ?s \<and> k < getNumChannels outputBuffer"
    by simp
  from applyFunction_defined [OF r assms(3) order_refl, of f]
  obtain b' where b': "applyFunction f ?s ?n outputBuffer ?cs = Some b'" ..
  then have p: "process (FunctionAudioNode a input f) m outputBuffer midi = Some (b', midi, m)"
    by (simp add: FunctionAudioNode_process_def Let_def)
  from applyFunction_channels [OF b' distinct_upt assms(4,2,1) refl assms(3) r] assms(4)
  have "channels b' ! c =
          (if c < getNumChannels ?s then map f (take ?n (channels ?s ! c))
           else channels outputBuffer ! c)"
    by simp
  with p applyFunction_shape [OF b'] show ?thesis by blast
qed

text \<open>
  A memory in which the node at address 1 has produced one channel, and a two-channel
  output buffer for a function node that halves.
\<close>

definition halfMemory :: "int memory" where
  "halfMemory = newMemory\<lparr>objects := (objects newMemory)(1 :=
     newAudioNode\<lparr>audioBuffer := \<lparr>channels = [[2, 4, 6]], numSamples = 3\<rparr>,
                   hasBeenProcessed := True\<rparr>)\<rparr>"

definition halfOutput :: "int AudioBuffer" where
  "halfOutput = \<lparr>channels = [[0, 0, 0], [9, 9, 9]], numSamples = 3\<rparr>"

theorem function_node_maps_samples_witness:
  "wellShaped halfOutput
   \<and> wellShaped (getProcessedAudioOutput (SinAudioNode 1 (\<lambda>k. 0)) halfMemory)
   \<and> getNumSamples halfOutput \<le> getNumSamples (getProcessedAudioOutput (SinAudioNode 1 (\<lambda>k. 0)) halfMemory)
   \<and> 1 < getNumChannels halfOutput
   \<and> hasProcessed (SinAudioNode 1 (\<lambda>k. 0)) halfMemory
   \<and> (\<exists>outputBuffer'.
        process (FunctionAudioNode 0 (SinAudioNode 1 (\<lambda>k. 0)) (\<lambda>s. s div 2)) halfMemory
          halfOutput [(0, [144])] = Some (outputBuffer', [(0, [144])], halfMemory)
        \<and> shape outputBuffer' = (2, 3)
        \<and> channels outputBuffer' ! 0 = [1, 2, 3]
        \<and> channels outputBuffer' ! 1 = [9, 9, 9])"
proof -
  let ?i = "SinAudioNode 1 (\<lambda>k. 0) :: int AudioNode"
  have w: "wellShaped halfOutput"
    and wi: "wellShaped (getProcessedAudioOutput ?i halfMemory)"
    and n: "getNumSamples halfOutput \<le> getNumSamples (getProcessedAudioOutput ?i halfMemory)"
    and c0: "0 < getNumChannels halfOutput" and c1: "1 < getNumChannels halfOutput"
    and hp: "hasProcessed ?i halfMemory"
    by (simp_all add: halfOutput_def halfMemory_def newMemory_def newAudioNode_def wellShaped_def
        getProcessedAudioOutput_def getNumSamples_def getNumChannels_def hasProcessed_def)
  note defs = halfOutput_def halfMemory_def newMemory_def newAudioNode_def shape_def
    getProcessedAudioOutput_def getNumSamples_def getNumChannels_def
  let ?node = "FunctionAudioNode 0 ?i (\<lambda>s. s div 2)"
  from function_node_maps_samples [OF w wi n c0, of 0 "\<lambda>s. s div 2" "[(0, [144])]"]
  obtain b0 where p0: "process ?node halfMemory halfOutput [(0, [144])]
        = Some (b0, [(0, [144])], halfMemory)"
    and sh: "shape b0 = shape halfOutput"
    and ch0: "channels b0 ! 0 =
          (if 0 < getNumChannels (getProcessedAudioOutput ?i halfMemory)
           then map (\<lambda>s. s div 2) (take (getNumSamples halfOutput)
                         (channels (getProcessedAudioOutput ?i halfMemory) ! 0))
           else channels halfOutput ! 0)"
    by blast
  from function_node_maps_samples [OF w wi n c1, of 0 "\<lambda>s. s div 2" "[(0, [144])]"]
  obtain b1 where p1: "process ?node halfMemory halfOutput [(0, [144])]
        = Some (b1, [(0, [144])], halfMemory)"
    and ch1: "channels b1 ! 1 =
          (if 1 < getNumChannels (getProcessedAudioOutput ?i halfMemory)
           then map (\<lambda>s. s div 2) (take (getNumSamples halfOutput)
                         (channels (getProcessedAudioOutput ?i halfMemory) ! 1))
           else channels halfOutput ! 1)"
    by blast
  from p0 p1 have same: "b1 = b0" by simp
  from ch0 have a0: "channels b0 ! 0 = [1, 2, 3]" by (simp add: defs)
  from ch1 same have a1: "channels b0 ! 1 = [9, 9, 9]" by (simp add: defs)
  from sh have a2: "shape b0 = (2, 3)" by (simp add: defs)
  from p0 a0 a1 a2
  have "\<exists>outputBuffer'.
        process ?node halfMemory halfOutput [(0, [144])]
          = Some (outputBuffer', [(0, [144])], halfMemory)
        \<and> shape outputBuffer' = (2, 3)
        \<and> channels outputBuffer' ! 0 = [1, 2, 3]
        \<and> channels outputBuffer' ! 1 = [9, 9, 9]"
    by blast
  with w wi n c1 hp show ?thesis by blast
qed

section \<open>The summing node\<close>

text \<open>
  The sum as the specification words it: starting from what the destination holds, each input in
  turn adds its sample to channel \<open>c\<close> when \<open>c\<close> is below
  \<open>min destChannels inputChannels\<close>, and adds nothing otherwise.
\<close>

definition accumulated ::
  "('a::plus) AudioNode list \<Rightarrow> 'a memory \<Rightarrow> nat \<Rightarrow> nat \<Rightarrow> nat \<Rightarrow> 'a \<Rightarrow> 'a" where
  "accumulated nodes m destChannels c i start =
     foldl (\<lambda>sum input.
              let inputBuffer = getProcessedAudioOutput input m
              in if c < min destChannels (getNumChannels inputBuffer)
                 then sum + getSample inputBuffer c i
                 else sum)
       start nodes"

lemma addFrom_full:
  assumes "addFrom d k 0 s k 0 n = Some d'" and "wellShaped d" and "wellShaped s"
    and "n = getNumSamples d"
  shows "wellShaped d'"
    and "channels d' = (channels d)[k := map2 (+) (channels d ! k) (take n (channels s ! k))]"
proof -
  from assms(1) have kd: "k < getNumChannels d" and ks: "k < getNumChannels s"
    and ns: "n \<le> getNumSamples s"
    by (auto simp: addFrom_def inRange_def split: if_splits)
  from wellShaped_nth [OF assms(2) kd] assms(4) have ld: "length (channels d ! k) = n" by simp
  from wellShaped_nth [OF assms(3) ks] ns have ls: "n \<le> length (channels s ! k)" by simp
  from addFrom_channels [OF assms(1)] ld
  show ch: "channels d' = (channels d)[k := map2 (+) (channels d ! k) (take n (channels s ! k))]"
    by simp
  from addFrom_channels [OF assms(1)] ch
  have "d' = d\<lparr>channels := (channels d)[k := map2 (+) (channels d ! k) (take n (channels s ! k))]\<rparr>"
    by simp
  moreover from ld ls assms(4)
  have "length (map2 (+) (channels d ! k) (take n (channels s ! k))) = numSamples d"
    by (simp add: getNumSamples_def)
  ultimately show "wellShaped d'"
    using wellShaped_update [OF assms(2)] by simp
qed

lemma addChannels_channels:
  "addChannels d s n cs = Some d' \<Longrightarrow> distinct cs \<Longrightarrow> c < getNumChannels d \<Longrightarrow>
   wellShaped s \<Longrightarrow> wellShaped d \<Longrightarrow> n = getNumSamples d \<Longrightarrow>
     wellShaped d'
     \<and> channels d' ! c =
         (if c \<in> set cs then map2 (+) (channels d ! c) (take n (channels s ! c))
          else channels d ! c)"
proof (induction cs arbitrary: d)
  case Nil
  then show ?case by simp
next
  case (Cons k cs)
  from Cons.prems(1) obtain d1 where d1: "addFrom d k 0 s k 0 n = Some d1"
    and rest: "addChannels d1 s n cs = Some d'"
    by (auto split: option.splits)
  from d1 have kd: "k < getNumChannels d"
    by (auto simp: addFrom_def inRange_def split: if_splits)
  from addFrom_full [OF d1 Cons.prems(5,4,6)]
  have w1: "wellShaped d1"
    and ch1: "channels d1 = (channels d)[k := map2 (+) (channels d ! k) (take n (channels s ! k))]" .
  from addFrom_shape [OF d1] have sh: "shape d1 = shape d" .
  with Cons.prems(3,6) have c1: "c < getNumChannels d1" and n1: "n = getNumSamples d1"
    by (simp_all add: shape_def)
  from Cons.prems(2) have dist: "distinct cs" and k: "k \<notin> set cs" by simp_all
  note IH = Cons.IH [OF rest dist c1 Cons.prems(4) w1 n1]
  show ?case
  proof (cases "c = k")
    case True
    with k IH ch1 kd show ?thesis by (simp add: getNumChannels_def)
  next
    case False
    with IH ch1 show ?thesis by simp
  qed
qed

lemma sumInputs_samples:
  "sumInputs ns m n d = Some d' \<Longrightarrow> wellShaped d \<Longrightarrow> n = getNumSamples d \<Longrightarrow>
   \<forall>x \<in> set ns. wellShaped (getProcessedAudioOutput x m)
       \<and> n \<le> getNumSamples (getProcessedAudioOutput x m) \<Longrightarrow>
   c < getNumChannels d \<Longrightarrow> i < n \<Longrightarrow>
     getSample d' c i = accumulated ns m (getNumChannels d) c i (getSample d c i)"
proof (induction ns arbitrary: d)
  case Nil
  then show ?case by (simp add: accumulated_def)
next
  case (Cons x ns)
  let ?s = "getProcessedAudioOutput x m"
  let ?k = "min (getNumChannels d) (getNumChannels ?s)"
  from Cons.prems(1) obtain d1 where d1: "addChannels d ?s n [0 ..< ?k] = Some d1"
    and rest: "sumInputs ns m n d1 = Some d'"
    by (auto simp: Let_def split: option.splits)
  from Cons.prems(4) have ws: "wellShaped ?s" and ns: "n \<le> getNumSamples ?s" by simp_all
  from addChannels_channels [OF d1 distinct_upt Cons.prems(5) ws Cons.prems(2,3)]
  have w1: "wellShaped d1"
    and ch1: "channels d1 ! c =
         (if c < ?k then map2 (+) (channels d ! c) (take n (channels ?s ! c)) else channels d ! c)"
    by simp_all
  from addChannels_shape [OF d1] have sh: "shape d1 = shape d" .
  with Cons.prems(3,5) have c1: "c < getNumChannels d1" and n1: "n = getNumSamples d1"
    and chans: "getNumChannels d1 = getNumChannels d"
    by (simp_all add: shape_def)
  have step: "getSample d1 c i =
      (if c < ?k then getSample d c i + getSample ?s c i else getSample d c i)"
  proof (cases "c < ?k")
    case True
    then have cs: "c < getNumChannels ?s" by simp
    from wellShaped_nth [OF Cons.prems(2,5)] Cons.prems(3,6)
    have "i < length (channels d ! c)" by simp
    moreover from wellShaped_nth [OF ws cs] ns Cons.prems(6)
    have "i < length (take n (channels ?s ! c))" by simp
    ultimately have "map2 (+) (channels d ! c) (take n (channels ?s ! c)) ! i
        = channels d ! c ! i + channels ?s ! c ! i"
      using Cons.prems(6) by simp
    moreover from True ch1
    have "channels d1 ! c = map2 (+) (channels d ! c) (take n (channels ?s ! c))"
      by (simp only: if_True)
    ultimately have "getSample d1 c i = getSample d c i + getSample ?s c i"
      by (simp only: getSample_def)
    with True show ?thesis by (simp only: if_True)
  next
    case False
    with ch1 have "channels d1 ! c = channels d ! c" by (simp only: if_False)
    then have "getSample d1 c i = getSample d c i" by (simp only: getSample_def)
    with False show ?thesis by (simp only: if_False)
  qed
  from Cons.IH [OF rest w1 n1 _ c1 Cons.prems(6)] Cons.prems(4)
  have "getSample d' c i = accumulated ns m (getNumChannels d1) c i (getSample d1 c i)"
    by simp
  with step chans show ?case
    by (simp add: accumulated_def Let_def)
qed

text \<open>
  C6. The summing node's \<^verbatim>\<open>process\<close> returns, keeps the destination's shape, and leaves
  in every sample of the destination the sum, input after input, of what it held and of
  the same sample of each input that has that channel: an input with fewer channels adds
  to its own channels only, an input with more is cut to the destination's.
\<close>

theorem summing_node_accumulates:
  assumes "wellShaped dest"
    and "list_all (\<lambda>input. wellShaped (getProcessedAudioOutput input m)
            \<and> getNumSamples dest \<le> getNumSamples (getProcessedAudioOutput input m)) nodes"
    and "c < getNumChannels dest" and "i < getNumSamples dest"
  shows "\<exists>dest'.
      process (SummingAudioNode a nodes) m dest midi = Some (dest', midi, m)
      \<and> shape dest' = shape dest
      \<and> getSample dest' c i = accumulated nodes m (getNumChannels dest) c i (getSample dest c i)"
proof -
  let ?n = "getNumSamples dest"
  from assms(2) have ins: "\<forall>x \<in> set nodes. wellShaped (getProcessedAudioOutput x m)
       \<and> ?n \<le> getNumSamples (getProcessedAudioOutput x m)"
    by (simp add: list_all_iff)
  then have "\<forall>x \<in> set nodes. ?n \<le> getNumSamples (getProcessedAudioOutput x m)" by simp
  from sumInputs_defined [OF this order_refl]
  obtain d' where d': "sumInputs nodes m ?n dest = Some d'" ..
  then have p: "process (SummingAudioNode a nodes) m dest midi = Some (d', midi, m)"
    by (simp add: SummingAudioNode_process_def)
  from sumInputs_samples [OF d' assms(1) refl ins assms(3,4)] p sumInputs_shape [OF d']
  show ?thesis by blast
qed

text \<open>
  Two produced inputs, of one and of three channels, summed into a two-channel
  destination that already holds samples.
\<close>

definition mixMemory :: "int memory" where
  "mixMemory = newMemory\<lparr>objects := (objects newMemory)
     (7 := newAudioNode\<lparr>audioBuffer := \<lparr>channels = [[1, 2]], numSamples = 2\<rparr>,
                         hasBeenProcessed := True\<rparr>,
      8 := newAudioNode\<lparr>audioBuffer :=
                           \<lparr>channels = [[10, 20], [30, 40], [50, 60]], numSamples = 2\<rparr>,
                         hasBeenProcessed := True\<rparr>)\<rparr>"

definition mixInputs :: "int AudioNode list" where
  "mixInputs = [SinAudioNode 7 (\<lambda>k. 0), SummingAudioNode 8 []]"

definition mixDest :: "int AudioBuffer" where
  "mixDest = \<lparr>channels = [[100, 200], [300, 400]], numSamples = 2\<rparr>"

theorem summing_node_accumulates_witness:
  "wellShaped mixDest
   \<and> list_all (\<lambda>input. wellShaped (getProcessedAudioOutput input mixMemory)
            \<and> getNumSamples mixDest \<le> getNumSamples (getProcessedAudioOutput input mixMemory))
        mixInputs
   \<and> list_all (\<lambda>input. hasProcessed input mixMemory) mixInputs
   \<and> 1 < getNumChannels mixDest \<and> 0 < getNumSamples mixDest
   \<and> (\<exists>dest'. process (SummingAudioNode 0 mixInputs) mixMemory mixDest [] = Some (dest', [], mixMemory)
        \<and> shape dest' = (2, 2)
        \<and> getSample dest' 0 0 = 100 + 1 + 10
        \<and> getSample dest' 1 0 = 300 + 30)"
proof -
  note defs = mixDest_def mixMemory_def mixInputs_def newMemory_def newAudioNode_def shape_def
    getProcessedAudioOutput_def getNumSamples_def getNumChannels_def wellShaped_def
    hasProcessed_def getSample_def accumulated_def Let_def
  have w: "wellShaped mixDest"
    and ins: "list_all (\<lambda>input. wellShaped (getProcessedAudioOutput input mixMemory)
            \<and> getNumSamples mixDest \<le> getNumSamples (getProcessedAudioOutput input mixMemory))
        mixInputs"
    and hp: "list_all (\<lambda>input. hasProcessed input mixMemory) mixInputs"
    and c0: "0 < getNumChannels mixDest" and c1: "1 < getNumChannels mixDest"
    and i0: "0 < getNumSamples mixDest"
    by (simp_all add: defs)
  let ?node = "SummingAudioNode 0 mixInputs"
  from summing_node_accumulates [OF w ins c0 i0, of 0 "[]"]
  obtain b0 where p0: "process ?node mixMemory mixDest [] = Some (b0, [], mixMemory)"
    and sh: "shape b0 = shape mixDest"
    and s0: "getSample b0 0 0
        = accumulated mixInputs mixMemory (getNumChannels mixDest) 0 0 (getSample mixDest 0 0)"
    by blast
  from summing_node_accumulates [OF w ins c1 i0, of 0 "[]"]
  obtain b1 where p1: "process ?node mixMemory mixDest [] = Some (b1, [], mixMemory)"
    and s1: "getSample b1 1 0
        = accumulated mixInputs mixMemory (getNumChannels mixDest) 1 0 (getSample mixDest 1 0)"
    by blast
  from p0 p1 have same: "b1 = b0" by simp
  from s0 have a0: "getSample b0 0 0 = 100 + 1 + 10" by (simp add: defs)
  from s1 same have a1: "getSample b0 1 0 = 300 + 30" by (simp add: defs)
  from sh have a2: "shape b0 = (2, 2)" by (simp add: defs)
  from p0 a0 a1 a2
  have "\<exists>dest'. process ?node mixMemory mixDest [] = Some (dest', [], mixMemory)
        \<and> shape dest' = (2, 2)
        \<and> getSample dest' 0 0 = 100 + 1 + 10
        \<and> getSample dest' 1 0 = 300 + 30"
    by blast
  with w ins hp c1 i0 show ?thesis by blast
qed

section \<open>Preparation calls\<close>

text \<open>
  C5, which says that \<^verbatim>\<open>prepareToPlay\<close> reaches every node exactly once. On the graph of the
  file's cancelling test the processor prepares each node of its list, and each composite
  prepares the nodes it owns again: the sine node 1 is prepared twice and the sine node 3,
  which lies under the function node 2 under the summing node 0, three times.
\<close>

theorem cancelling_prepare_calls:
  "calls (AudioNodeProcessor_prepareToPlay (newAudioNodeProcessor cancelling) 2 newMemory)
     = [Initialise 1, PrepareToPlay 1,
        Initialise 2, PrepareToPlay 2, PrepareToPlay 3,
        Initialise 3, PrepareToPlay 3,
        Initialise 0, PrepareToPlay 0, PrepareToPlay 1, PrepareToPlay 2, PrepareToPlay 3]
   \<and> count_list (calls (AudioNodeProcessor_prepareToPlay (newAudioNodeProcessor cancelling) 2
          newMemory)) (PrepareToPlay 3) = 3"
  by (simp add: cancelling_def newAudioNodeProcessor_def AudioNodeProcessor_prepareToPlay_def
      AudioNode_initialise_def called_def newMemory_def Let_def)

section \<open>A stalled block\<close>

text \<open>
  A summing node over a sine node and a node that is never ready, so that the summing
  node can never become ready; the graph is prepared for blocks of two samples, and
  \<open>x\<close>, \<open>y\<close> stand for whatever the root's buffer holds when the block starts.
\<close>

definition stalled :: "int AudioNode" where
  "stalled = SummingAudioNode 0 [SinAudioNode 1 (\<lambda>k. 1 + int k), NeverReadyAudioNode 2 1]"

definition stalledMemory :: "int \<Rightarrow> int \<Rightarrow> int memory" where
  "stalledMemory x y =
     (let m = AudioNodeProcessor_prepareToPlay (newAudioNodeProcessor stalled) 2 newMemory
      in m\<lparr>objects := (objects m)(0 :=
           (objects m 0)\<lparr>audioBuffer := \<lparr>channels = [[x, y]], numSamples = 2\<rparr>\<rparr>)\<rparr>)"

text \<open>
  C2, which says that a stalled block reports an error. On the stalled graph the block
  returns as any other: after the sine node is processed a scan makes no progress, the
  root's buffer, which the root never produced in this block, is copied over the caller's
  samples, and nothing in the result tells the caller.
\<close>

theorem stalled_block_returns_silently:
  "\<exists>m'. AudioNodeProcessor_process (newAudioNodeProcessor stalled) (stalledMemory x y)
           \<lparr>channels = [[5, 6]], numSamples = 2\<rparr> [(0, [144, 60, 100])]
         = Some (\<lparr>channels = [[x, y]], numSamples = 2\<rparr>, [(0, [144, 60, 100])], m')
       \<and> \<not> hasProcessed stalled m'
       \<and> hasProcessed (SinAudioNode 1 (\<lambda>k. 1 + int k)) m'
       \<and> getProcessedAudioOutput (SinAudioNode 1 (\<lambda>k. 1 + int k)) m'
           = \<lparr>channels = [[1, 2]], numSamples = 2\<rparr>"
  by (simp add: AudioNodeProcessor_process_def processLoop.simps
      stalledMemory_def stalled_def newAudioNodeProcessor_def
      AudioNodeProcessor_prepareToPlay_def AudioNode_initialise_def called_def newMemory_def
      newAudioNode_def setSize_def Let_def prepareForNextBlock_def hasProcessed_def
      AudioNode_process_def SinAudioNode_process_def writeSamples_def inRange_def
      getNumChannels_def getNumSamples_def clear_def copyAudioBuffer_def copyFrom_def
      getProcessedAudioOutput_def upt_rec numeral_2_eq_2)

end
